theory Spec2Isabelle
  imports
    Complex_Main
    "HOL-Library.AList"
    "HOL-Library.Char_ord"
    "HOL-Library.List_Lexorder"
begin

section \<open>Conventions of the embedding\<close>

text \<open>
  The development embeds the storage engine of pykv: the LRU index of
  \<^verbatim>\<open>app/async_lru.py\<close> and the store facade of \<^verbatim>\<open>app/async_store.py\<close>
  (\<^verbatim>\<open>app/simple_store.py\<close> repeats the facade line by line with blocking file I/O).

  \<^descr>[Clock.] \<^verbatim>\<open>time.time()\<close> is a parameter \<open>now\<close> of every operation; one call of
  an operation uses the same reading wherever the source reads the clock. Instants and
  durations are real numbers, so the rounding of Python's floats is not represented.
  The range of the floats is represented where Python converts an \<^verbatim>\<open>int\<close> to a float.

  \<^descr>[Coroutines.] An \<^verbatim>\<open>async def\<close> of the source becomes a function from the object's
  state to \<open>(result, state) option\<close>. The value \<open>None\<close> means that the coroutine never
  returns: it awaits an \<^verbatim>\<open>asyncio.Lock\<close> that is held and that nothing will release.
  \<^verbatim>\<open>Lock.acquire\<close> waits until the lock is unlocked, whoever holds it: the lock is not
  reentrant, and a task that acquires a lock it already holds waits for itself. Each
  lock is therefore a boolean field of the object that owns it;
  \<^verbatim>\<open>async with self.lock\<close> does not proceed when the field is set, and otherwise sets it
  for the body and clears it afterwards, also when the body leaves by \<^verbatim>\<open>return\<close> or by
  an exception.

  \<^descr>[Exceptions.] A coroutine that can raise returns a value of \<open>error + result\<close>:
  \<open>Inl e\<close> is the exception \<open>e\<close> leaving the coroutine, paired with the state in which
  it leaves the object, and \<open>Inr r\<close> is the return of \<open>r\<close>. The exception that the
  engine can raise on arguments of the annotated types is \<^verbatim>\<open>OverflowError\<close>, from the
  conversion of a time to live to a float. Failures of the file system are not
  represented.

  \<^descr>[Objects.] A node is created by \<^verbatim>\<open>put\<close> for a key, stored in the dictionary under
  that key and linked into the list, and it leaves both together; the node of the list
  is therefore named by its key. The doubly linked list between the two sentinels is
  the sequence of these names from \<^verbatim>\<open>head.next\<close> to \<^verbatim>\<open>tail.prev\<close>. The dictionary is an
  association list in insertion order, as a Python \<^verbatim>\<open>dict\<close> is.

  \<^descr>[Files.] The write-ahead log is the list of its records, or \<open>None\<close> when the path
  does not exist. Only records of the shape written by \<^verbatim>\<open>_log_operation\<close> and by
  compaction are represented; lines that \<^verbatim>\<open>json.loads\<close> rejects are skipped by the
  source and have no counterpart here. Backup files of compaction are not represented.

  \<^descr>[Tasks.] The operations of a client are issued one after the other. The two timer
  tasks (the sweep of expired entries every 60 seconds and the compaction loop) are not
  interleaved with them; \<^verbatim>\<open>compact_log\<close> is embedded as an operation of its own. The
  decorator \<^verbatim>\<open>timed_operation\<close> records durations in a separate monitor object and does
  not touch the store. \<^verbatim>\<open>shutdown\<close> cancels the compaction task and leaves the cache and
  the log file as they are. The store is constructed inside a running event loop, as
  \<^verbatim>\<open>asyncio.create_task\<close> in the constructor of the cache requires.
\<close>

type_synonym ('a, 's) coroutine = "'s \<Rightarrow> ('a \<times> 's) option"

datatype error = OverflowError

section \<open>Numbers\<close>

text \<open>
  A time to live reaches \<^verbatim>\<open>put\<close> as an \<^verbatim>\<open>int\<close> from \<^verbatim>\<open>set\<close> and as a float from
  \<^verbatim>\<open>_recover\<close>.
\<close>

datatype number = PyInt int | PyFloat real

text \<open>
  Python converts the \<^verbatim>\<open>int\<close> operand of an addition or subtraction with a float to a
  float and raises \<^verbatim>\<open>OverflowError\<close> (int too large to convert to float) when the
  \<^verbatim>\<open>int\<close> rounds beyond the largest float, \<open>2 ^ 1024 - 2 ^ 971\<close>: this is so from
  \<open>2 ^ 1024 - 2 ^ 970\<close> on, in both signs.
\<close>

definition py_float :: "int \<Rightarrow> error + real" where
  "py_float i =
     (if \<bar>i\<bar> < 2 ^ 1024 - 2 ^ 970 then Inr (real_of_int i) else Inl OverflowError)"

section \<open>Nodes and the doubly linked list\<close>

record AsyncNode =
  node_key :: string
  node_value :: "string option"
  expires_at :: "real option"
  access_time :: real

text \<open>
  \<^verbatim>\<open>time.time() + ttl if ttl else None\<close>: Python's truth test of an optional number
  is false on \<^verbatim>\<open>None\<close> and on zero; the addition converts an \<^verbatim>\<open>int\<close> to a float.
\<close>

definition expiry :: "number option \<Rightarrow> real \<Rightarrow> error + real option" where
  "expiry ttl now =
     (case ttl of
        None \<Rightarrow> Inr None
      | Some (PyInt i) \<Rightarrow>
          if i \<noteq> 0 then
            (case py_float i of
               Inl e \<Rightarrow> Inl e
             | Inr t \<Rightarrow> Inr (Some (now + t)))
          else Inr None
      | Some (PyFloat t) \<Rightarrow> if t \<noteq> 0 then Inr (Some (now + t)) else Inr None)"

text \<open>\<^verbatim>\<open>AsyncNode.__init__\<close>; an exception of the third assignment leaves no node.\<close>

definition AsyncNode_init ::
  "string \<Rightarrow> string option \<Rightarrow> number option \<Rightarrow> real \<Rightarrow> error + AsyncNode" where
  "AsyncNode_init key val ttl now =
     (case expiry ttl now of
        Inl e \<Rightarrow> Inl e
      | Inr expires \<Rightarrow>
          Inr \<lparr>node_key = key, node_value = val, expires_at = expires, access_time = now\<rparr>)"

record AsyncDoublyLinkedList =
  chain :: "string list"
  dll_lock :: bool

definition AsyncDoublyLinkedList_init :: AsyncDoublyLinkedList where
  "AsyncDoublyLinkedList_init = \<lparr>chain = [], dll_lock = False\<rparr>"

text \<open>\<^verbatim>\<open>async with self.lock:\<close> of the list.\<close>

definition with_dll_lock ::
  "('a, AsyncDoublyLinkedList) coroutine \<Rightarrow> ('a, AsyncDoublyLinkedList) coroutine" where
  "with_dll_lock body l =
     (if dll_lock l then None
      else case body (l\<lparr>dll_lock := True\<rparr>) of
             None \<Rightarrow> None
           | Some (r, l') \<Rightarrow> Some (r, l'\<lparr>dll_lock := False\<rparr>))"

definition add_to_front :: "string \<Rightarrow> (unit, AsyncDoublyLinkedList) coroutine" where
  "add_to_front node = with_dll_lock (\<lambda>l. Some ((), l\<lparr>chain := node # chain l\<rparr>))"

text \<open>
  \<^verbatim>\<open>remove_node\<close> links the neighbours of the node to each other. The cache calls it
  only on nodes of its dictionary, all of which are linked (\<open>cache_inv\<close> below), so the
  node is in the chain and leaves it.
\<close>

definition remove_node :: "string \<Rightarrow> (unit, AsyncDoublyLinkedList) coroutine" where
  "remove_node node = with_dll_lock (\<lambda>l. Some ((), l\<lparr>chain := remove1 node (chain l)\<rparr>))"

text \<open>
  \<^verbatim>\<open>remove_from_end\<close> awaits \<^verbatim>\<open>self.remove_node(lru)\<close> inside its own
  \<^verbatim>\<open>async with self.lock\<close>.
\<close>

definition remove_from_end :: "(string option, AsyncDoublyLinkedList) coroutine" where
  "remove_from_end =
     with_dll_lock (\<lambda>l.
       if chain l = [] then Some (None, l)
       else let lru = last (chain l) in
         case remove_node lru l of
           None \<Rightarrow> None
         | Some (_, l') \<Rightarrow> Some (Some lru, l'))"

definition move_to_front :: "string \<Rightarrow> (unit, AsyncDoublyLinkedList) coroutine" where
  "move_to_front node l =
     (case remove_node node l of
        None \<Rightarrow> None
      | Some (_, l') \<Rightarrow> add_to_front node l')"

section \<open>The LRU cache\<close>

record AsyncLRUCache =
  capacity :: int
  cache :: "(string \<times> AsyncNode) list"
  dll :: AsyncDoublyLinkedList
  cache_lock :: bool

definition AsyncLRUCache_init :: "int \<Rightarrow> AsyncLRUCache" where
  "AsyncLRUCache_init cap =
     \<lparr>capacity = cap, cache = [], dll = AsyncDoublyLinkedList_init, cache_lock = False\<rparr>"

definition with_cache_lock ::
  "('a, AsyncLRUCache) coroutine \<Rightarrow> ('a, AsyncLRUCache) coroutine" where
  "with_cache_lock body c =
     (if cache_lock c then None
      else case body (c\<lparr>cache_lock := True\<rparr>) of
             None \<Rightarrow> None
           | Some (r, c') \<Rightarrow> Some (r, c'\<lparr>cache_lock := False\<rparr>))"

text \<open>A coroutine of \<^verbatim>\<open>self.dll\<close> awaited from a method of the cache.\<close>

definition on_dll ::
  "('a, AsyncDoublyLinkedList) coroutine \<Rightarrow> ('a, AsyncLRUCache) coroutine" where
  "on_dll f c =
     (case f (dll c) of
        None \<Rightarrow> None
      | Some (r, l') \<Rightarrow> Some (r, c\<lparr>dll := l'\<rparr>))"

definition is_expired :: "AsyncNode \<Rightarrow> real \<Rightarrow> bool" where
  "is_expired node now = (case expires_at node of None \<Rightarrow> False | Some e \<Rightarrow> now > e)"

definition remove_node_internal :: "string \<Rightarrow> (unit, AsyncLRUCache) coroutine" where
  "remove_node_internal key c =
     (case on_dll (remove_node key) c of
        None \<Rightarrow> None
      | Some (_, c') \<Rightarrow>
          Some ((), if map_of (cache c') key \<noteq> None
                    then c'\<lparr>cache := AList.delete key (cache c')\<rparr> else c'))"

definition cache_get :: "string \<Rightarrow> real \<Rightarrow> (string option, AsyncLRUCache) coroutine" where
  "cache_get key now =
     with_cache_lock (\<lambda>c.
       case map_of (cache c) key of
         None \<Rightarrow> Some (None, c)
       | Some node \<Rightarrow>
           if is_expired node now then
             (case remove_node_internal key c of
                None \<Rightarrow> None
              | Some (_, c') \<Rightarrow> Some (None, c'))
           else
             (case on_dll (move_to_front key) c of
                None \<Rightarrow> None
              | Some (_, c') \<Rightarrow>
                  Some (node_value node,
                        c'\<lparr>cache := AList.update key (node\<lparr>access_time := now\<rparr>) (cache c')\<rparr>)))"

definition cache_get_raw ::
  "string \<Rightarrow> real \<Rightarrow> ((string option \<times> real option) option, AsyncLRUCache) coroutine" where
  "cache_get_raw key now =
     with_cache_lock (\<lambda>c.
       case map_of (cache c) key of
         None \<Rightarrow> Some (None, c)
       | Some node \<Rightarrow>
           if is_expired node now then
             (case remove_node_internal key c of
                None \<Rightarrow> None
              | Some (_, c') \<Rightarrow> Some (None, c'))
           else Some (Some (node_value node, expires_at node), c))"

text \<open>
  \<^verbatim>\<open>put\<close>. In the branch of a key that is present the value of the node is assigned
  before the expiry is computed, so an exception of the expiry leaves the new value
  with the old expiry and the old place in the list. In the other branch the eviction
  comes before the construction of the node.
\<close>

definition cache_put ::
  "string \<Rightarrow> string option \<Rightarrow> number option \<Rightarrow> real
   \<Rightarrow> (error + unit, AsyncLRUCache) coroutine" where
  "cache_put key val ttl now =
     with_cache_lock (\<lambda>c.
       case map_of (cache c) key of
         Some node \<Rightarrow>
           (case expiry ttl now of
              Inl e \<Rightarrow>
                Some (Inl e, c\<lparr>cache := AList.update key (node\<lparr>node_value := val\<rparr>) (cache c)\<rparr>)
            | Inr expires \<Rightarrow>
                (case on_dll (move_to_front key)
                        (c\<lparr>cache := AList.update key
                              (node\<lparr>node_value := val, expires_at := expires,
                                    access_time := now\<rparr>)
                              (cache c)\<rparr>) of
                   None \<Rightarrow> None
                 | Some (_, c') \<Rightarrow> Some (Inr (), c')))
       | None \<Rightarrow>
           (case (if int (length (cache c)) \<ge> capacity c then
                    (case on_dll remove_from_end c of
                       None \<Rightarrow> None
                     | Some (lru, c') \<Rightarrow>
                         Some (case lru of
                                 None \<Rightarrow> c'
                               | Some lru_key \<Rightarrow>
                                   if map_of (cache c') lru_key \<noteq> None
                                   then c'\<lparr>cache := AList.delete lru_key (cache c')\<rparr>
                                   else c'))
                  else Some c) of
              None \<Rightarrow> None
            | Some c1 \<Rightarrow>
                (case AsyncNode_init key val ttl now of
                   Inl e \<Rightarrow> Some (Inl e, c1)
                 | Inr new_node \<Rightarrow>
                     (case on_dll (add_to_front key) c1 of
                        None \<Rightarrow> None
                      | Some (_, c2) \<Rightarrow>
                          Some (Inr (), c2\<lparr>cache := AList.update key new_node (cache c2)\<rparr>)))))"

definition cache_delete :: "string \<Rightarrow> (bool, AsyncLRUCache) coroutine" where
  "cache_delete key =
     with_cache_lock (\<lambda>c.
       case map_of (cache c) key of
         None \<Rightarrow> Some (False, c)
       | Some node \<Rightarrow>
           (case remove_node_internal key c of
              None \<Rightarrow> None
            | Some (_, c') \<Rightarrow> Some (True, c')))"

definition cache_size :: "(int, AsyncLRUCache) coroutine" where
  "cache_size = with_cache_lock (\<lambda>c. Some (int (length (cache c)), c))"

definition cache_get_all_keys :: "(string list, AsyncLRUCache) coroutine" where
  "cache_get_all_keys = with_cache_lock (\<lambda>c. Some (map fst (cache c), c))"

section \<open>The store facade\<close>

record log_entry =
  timestamp :: real
  action :: string
  entry_key :: string
  entry_value :: "string option"
  entry_ttl :: "int option"
  entry_namespace :: "string option"

record store_stats =
  cache_hits :: int
  cache_misses :: int
  evictions :: int
  log_size :: int
  last_compaction :: "real option"
  start_time :: real

record ns_stats =
  ns_cache_hits :: int
  ns_cache_misses :: int
  total_keys :: int

record AsyncKeyValueStore =
  store_cache :: AsyncLRUCache
  log_file :: "log_entry list option"
  store_lock :: bool
  stats :: store_stats
  namespace_stats :: "string \<rightharpoonup> ns_stats"

definition AsyncKeyValueStore_init :: "int \<Rightarrow> log_entry list option \<Rightarrow> real \<Rightarrow> AsyncKeyValueStore" where
  "AsyncKeyValueStore_init cap file now =
     \<lparr>store_cache = AsyncLRUCache_init cap,
      log_file = file,
      store_lock = False,
      stats = \<lparr>cache_hits = 0, cache_misses = 0, evictions = 0, log_size = 0,
               last_compaction = None, start_time = now\<rparr>,
      namespace_stats = Map.empty\<rparr>"

definition with_store_lock ::
  "('a, AsyncKeyValueStore) coroutine \<Rightarrow> ('a, AsyncKeyValueStore) coroutine" where
  "with_store_lock body s =
     (if store_lock s then None
      else case body (s\<lparr>store_lock := True\<rparr>) of
             None \<Rightarrow> None
           | Some (r, s') \<Rightarrow> Some (r, s'\<lparr>store_lock := False\<rparr>))"

text \<open>A coroutine of \<^verbatim>\<open>self.cache\<close> awaited from a method of the store.\<close>

definition on_cache ::
  "('a, AsyncLRUCache) coroutine \<Rightarrow> ('a, AsyncKeyValueStore) coroutine" where
  "on_cache f s =
     (case f (store_cache s) of
        None \<Rightarrow> None
      | Some (r, c') \<Rightarrow> Some (r, s\<lparr>store_cache := c'\<rparr>))"

text \<open>
  \<^verbatim>\<open>if namespace:\<close> is Python's truth test of an optional string, false on \<^verbatim>\<open>None\<close>
  and on the empty string.
\<close>

definition make_namespaced_key :: "string option \<Rightarrow> string \<Rightarrow> string" where
  "make_namespaced_key namespace key =
     (case namespace of
        None \<Rightarrow> key
      | Some ns \<Rightarrow> if ns \<noteq> [] then ns @ '':'' @ key else key)"

text \<open>\<^verbatim>\<open>full_key.split(":", 1)\<close> cuts at the first colon.\<close>

definition parse_namespaced_key :: "string \<Rightarrow> string option \<times> string" where
  "parse_namespaced_key full_key =
     (if CHR '':'' \<in> set full_key
      then (Some (takeWhile (\<lambda>c. c \<noteq> CHR '':'') full_key),
            tl (dropWhile (\<lambda>c. c \<noteq> CHR '':'') full_key))
      else (None, full_key))"

text \<open>\<^verbatim>\<open>namespace or "default"\<close>\<close>

definition ns_label :: "string option \<Rightarrow> string" where
  "ns_label namespace =
     (case namespace of
        None \<Rightarrow> ''default''
      | Some ns \<Rightarrow> if ns \<noteq> [] then ns else ''default'')"

definition init_namespace_stats :: "string option \<Rightarrow> AsyncKeyValueStore \<Rightarrow> AsyncKeyValueStore" where
  "init_namespace_stats namespace s =
     (let ns = ns_label namespace in
      if namespace_stats s ns = None
      then s\<lparr>namespace_stats := (namespace_stats s)
                (ns \<mapsto> \<lparr>ns_cache_hits = 0, ns_cache_misses = 0, total_keys = 0\<rparr>)\<rparr>
      else s)"

text \<open>
  \<^verbatim>\<open>self.namespace_stats[ns][field] = ...\<close>; every use follows
  \<^verbatim>\<open>_init_namespace_stats\<close>, so the label is present.
\<close>

definition update_ns_stats ::
  "string \<Rightarrow> (ns_stats \<Rightarrow> ns_stats) \<Rightarrow> AsyncKeyValueStore \<Rightarrow> AsyncKeyValueStore" where
  "update_ns_stats ns f s =
     (case namespace_stats s ns of
        None \<Rightarrow> s
      | Some st \<Rightarrow> s\<lparr>namespace_stats := (namespace_stats s)(ns \<mapsto> f st)\<rparr>)"

text \<open>\<^verbatim>\<open>_log_operation\<close>: opening the file for appending creates it.\<close>

definition log_operation ::
  "string \<Rightarrow> string \<Rightarrow> string option \<Rightarrow> int option \<Rightarrow> string option \<Rightarrow> real
   \<Rightarrow> AsyncKeyValueStore \<Rightarrow> AsyncKeyValueStore" where
  "log_operation act key val ttl namespace now s =
     s\<lparr>log_file := Some ((case log_file s of None \<Rightarrow> [] | Some es \<Rightarrow> es) @
          [\<lparr>timestamp = now, action = act, entry_key = key, entry_value = val,
            entry_ttl = ttl, entry_namespace = namespace\<rparr>]),
       stats := (stats s)\<lparr>log_size := log_size (stats s) + 1\<rparr>\<rparr>"

text \<open>
  The body of the loop of \<^verbatim>\<open>_recover\<close>, for one record. \<^verbatim>\<open>ttl - elapsed\<close> subtracts a
  float from the \<^verbatim>\<open>int\<close> of the record; the \<^verbatim>\<open>except\<close> clause of the loop names
  \<^verbatim>\<open>JSONDecodeError\<close> and \<^verbatim>\<open>KeyError\<close> only, so an \<^verbatim>\<open>OverflowError\<close> leaves the loop.
\<close>

definition recover_entry :: "real \<Rightarrow> log_entry \<Rightarrow> (error + unit, AsyncLRUCache) coroutine" where
  "recover_entry now entry c =
     (let full_key = make_namespaced_key (entry_namespace entry) (entry_key entry) in
      if action entry = ''SET'' then
        (case entry_ttl entry of
           None \<Rightarrow> cache_put full_key (entry_value entry) None now c
         | Some ttl \<Rightarrow>
             if ttl \<noteq> 0 then
               (let elapsed = now - timestamp entry in
                case py_float ttl of
                  Inl e \<Rightarrow> Some (Inl e, c)
                | Inr t \<Rightarrow>
                    (let remaining_ttl = t - elapsed
                     in if remaining_ttl \<le> 0 then Some (Inr (), c)
                        else cache_put full_key (entry_value entry)
                               (Some (PyFloat remaining_ttl)) now c))
             else cache_put full_key (entry_value entry) None now c)
      else if action entry = ''DEL'' then
        (case cache_delete full_key c of
           None \<Rightarrow> None
         | Some (_, c') \<Rightarrow> Some (Inr (), c'))
      else Some (Inr (), c))"

fun recover_entries :: "real \<Rightarrow> log_entry list \<Rightarrow> (error + unit, AsyncLRUCache) coroutine" where
  "recover_entries now [] c = Some (Inr (), c)"
| "recover_entries now (entry # es) c =
     (case recover_entry now entry c of
        None \<Rightarrow> None
      | Some (Inl e, c') \<Rightarrow> Some (Inl e, c')
      | Some (Inr _, c') \<Rightarrow> recover_entries now es c')"

definition recover :: "real \<Rightarrow> (error + unit, AsyncKeyValueStore) coroutine" where
  "recover now s =
     (case log_file s of
        None \<Rightarrow> Some (Inr (), s)
      | Some es \<Rightarrow> on_cache (recover_entries now es) s)"

definition initialize :: "real \<Rightarrow> (error + unit, AsyncKeyValueStore) coroutine" where
  "initialize now = recover now"

definition startswith :: "string \<Rightarrow> string \<Rightarrow> bool" where
  "startswith key pre = (take (length pre) key = pre)"

definition store_size :: "string option \<Rightarrow> (int, AsyncKeyValueStore) coroutine" where
  "store_size namespace s =
     (case namespace of
        None \<Rightarrow> on_cache cache_size s
      | Some ns \<Rightarrow>
          (case on_cache cache_get_all_keys s of
             None \<Rightarrow> None
           | Some (all_keys, s') \<Rightarrow>
               Some (int (length (filter (\<lambda>key. startswith key (ns @ '':'')) all_keys)), s')))"

text \<open>
  \<^verbatim>\<open>set\<close>: an exception of \<^verbatim>\<open>put\<close> leaves the method before the record is written
  and before the statistics are updated.
\<close>

definition store_set ::
  "string \<Rightarrow> string \<Rightarrow> int option \<Rightarrow> string option \<Rightarrow> real
   \<Rightarrow> (error + unit, AsyncKeyValueStore) coroutine" where
  "store_set key val ttl namespace now =
     (let full_key = make_namespaced_key namespace key in
      with_store_lock (\<lambda>s.
        case on_cache (cache_put full_key (Some val) (map_option PyInt ttl) now) s of
          None \<Rightarrow> None
        | Some (Inl e, s1) \<Rightarrow> Some (Inl e, s1)
        | Some (Inr _, s1) \<Rightarrow>
            (let s2 = log_operation ''SET'' key (Some val) ttl namespace now s1;
                 s3 = init_namespace_stats namespace s2;
                 ns = ns_label namespace
             in case store_size namespace s3 of
                  None \<Rightarrow> None
                | Some (n, s4) \<Rightarrow>
                    Some (Inr (), update_ns_stats ns (\<lambda>st. st\<lparr>total_keys := n\<rparr>) s4))))"

definition store_get ::
  "string \<Rightarrow> string option \<Rightarrow> real \<Rightarrow> (string option, AsyncKeyValueStore) coroutine" where
  "store_get key namespace now =
     (let full_key = make_namespaced_key namespace key in
      with_store_lock (\<lambda>s.
        case on_cache (cache_get full_key now) s of
          None \<Rightarrow> None
        | Some (val, s1) \<Rightarrow>
            (let s2 = init_namespace_stats namespace s1;
                 ns = ns_label namespace
             in if val \<noteq> None then
                  Some (val, update_ns_stats ns
                               (\<lambda>st. st\<lparr>ns_cache_hits := ns_cache_hits st + 1\<rparr>)
                               (s2\<lparr>stats := (stats s2)\<lparr>cache_hits := cache_hits (stats s2) + 1\<rparr>\<rparr>))
                else
                  Some (val, update_ns_stats ns
                               (\<lambda>st. st\<lparr>ns_cache_misses := ns_cache_misses st + 1\<rparr>)
                               (s2\<lparr>stats := (stats s2)\<lparr>cache_misses := cache_misses (stats s2) + 1\<rparr>\<rparr>)))))"

definition store_delete ::
  "string \<Rightarrow> string option \<Rightarrow> real \<Rightarrow> (bool, AsyncKeyValueStore) coroutine" where
  "store_delete key namespace now =
     (let full_key = make_namespaced_key namespace key in
      with_store_lock (\<lambda>s.
        case on_cache (cache_delete full_key) s of
          None \<Rightarrow> None
        | Some (deleted, s1) \<Rightarrow>
            if deleted then
              (let s2 = log_operation ''DEL'' key None None namespace now s1;
                   s3 = init_namespace_stats namespace s2;
                   ns = ns_label namespace
               in case store_size namespace s3 of
                    None \<Rightarrow> None
                  | Some (n, s4) \<Rightarrow>
                      Some (deleted, update_ns_stats ns (\<lambda>st. st\<lparr>total_keys := n\<rparr>) s4))
            else Some (deleted, s1)))"

definition list_namespaces :: "(string list, AsyncKeyValueStore) coroutine" where
  "list_namespaces s =
     (case on_cache cache_get_all_keys s of
        None \<Rightarrow> None
      | Some (all_keys, s') \<Rightarrow>
          Some (sort (remdups (concat (map
                  (\<lambda>key. if CHR '':'' \<in> set key
                          then (case fst (parse_namespaced_key key) of
                                  None \<Rightarrow> []
                                | Some namespace \<Rightarrow> if namespace \<noteq> [] then [namespace] else [])
                          else [])
                  all_keys))), s'))"

section \<open>Compaction\<close>

text \<open>
  The first loop of \<^verbatim>\<open>compact_log\<close>: \<^verbatim>\<open>get_raw\<close> for every key of the snapshot of the
  key set, collecting the pairs that are not \<^verbatim>\<open>None\<close> in the dictionary
  \<^verbatim>\<open>current_state\<close>.
\<close>

fun snapshot ::
  "string list \<Rightarrow> real \<Rightarrow> (string \<times> string option \<times> real option) list
   \<Rightarrow> ((string \<times> string option \<times> real option) list, AsyncLRUCache) coroutine" where
  "snapshot [] now current_state c = Some (current_state, c)"
| "snapshot (full_key # keys) now current_state c =
     (case cache_get_raw full_key now c of
        None \<Rightarrow> None
      | Some (val, c') \<Rightarrow>
          snapshot keys now
            (case val of
               None \<Rightarrow> current_state
             | Some v \<Rightarrow> AList.update full_key v current_state) c')"

text \<open>Python's \<^verbatim>\<open>int\<close> of a float rounds towards zero.\<close>

definition py_int :: "real \<Rightarrow> int" where
  "py_int x = (if 0 \<le> x then \<lfloor>x\<rfloor> else \<lceil>x\<rceil>)"

text \<open>\<^verbatim>\<open>ttl = None; if expires_at: ttl = max(0, int(expires_at - time.time()))\<close>\<close>

definition remaining_seconds :: "real option \<Rightarrow> real \<Rightarrow> int option" where
  "remaining_seconds expires now =
     (case expires of
        None \<Rightarrow> None
      | Some e \<Rightarrow> if e \<noteq> 0 then Some (max 0 (py_int (e - now))) else None)"

text \<open>
  The body of the second loop, for one item of \<^verbatim>\<open>current_state\<close>: the records it
  writes, none when it takes \<^verbatim>\<open>continue\<close>.
\<close>

definition compacted_entry ::
  "real \<Rightarrow> string \<times> string option \<times> real option \<Rightarrow> log_entry list" where
  "compacted_entry now item =
     (case item of (full_key, val, expires) \<Rightarrow>
        (let ttl = remaining_seconds expires now in
         if (case ttl of None \<Rightarrow> False | Some t \<Rightarrow> t \<le> 0) then []
         else (case parse_namespaced_key full_key of (namespace, key) \<Rightarrow>
                 [\<lparr>timestamp = now, action = ''SET'', entry_key = key, entry_value = val,
                   entry_ttl = ttl, entry_namespace = namespace\<rparr>])))"

definition compact_log :: "real \<Rightarrow> (unit, AsyncKeyValueStore) coroutine" where
  "compact_log now s =
     (if log_file s = None then Some ((), s)
      else with_store_lock (\<lambda>s.
        case on_cache cache_get_all_keys s of
          None \<Rightarrow> None
        | Some (cache_keys, s1) \<Rightarrow>
            (case on_cache (snapshot cache_keys now []) s1 of
               None \<Rightarrow> None
             | Some (current_state, s2) \<Rightarrow>
                 (let new_log = concat (map (compacted_entry now) current_state) in
                  Some ((), s2\<lparr>log_file := Some new_log,
                               stats := (stats s2)\<lparr>last_compaction := Some now,
                                                   log_size := int (length new_log)\<rparr>\<rparr>)))) s)"

section \<open>Sequences of client operations\<close>

datatype operation =
    OpSet string string "int option" "string option"
  | OpGet string "string option"
  | OpDelete string "string option"

datatype reply = Ack | Found "string option" | Deleted bool

fun perform :: "real \<Rightarrow> operation \<Rightarrow> (error + reply, AsyncKeyValueStore) coroutine" where
  "perform now (OpSet key val ttl namespace) s =
     (case store_set key val ttl namespace now s of
        None \<Rightarrow> None
      | Some (Inl e, s') \<Rightarrow> Some (Inl e, s')
      | Some (Inr _, s') \<Rightarrow> Some (Inr Ack, s'))"
| "perform now (OpGet key namespace) s =
     (case store_get key namespace now s of
        None \<Rightarrow> None
      | Some (val, s') \<Rightarrow> Some (Inr (Found val), s'))"
| "perform now (OpDelete key namespace) s =
     (case store_delete key namespace now s of
        None \<Rightarrow> None
      | Some (deleted, s') \<Rightarrow> Some (Inr (Deleted deleted), s'))"

text \<open>
  A client issues the operations one after the other, each at its clock reading. An
  operation that raises has released its locks, and the client goes on with the store
  as the exception left it; an operation that never returns leaves the client without
  a store to go on with.
\<close>

fun run :: "(real \<times> operation) list \<Rightarrow> AsyncKeyValueStore \<Rightarrow> AsyncKeyValueStore option" where
  "run [] s = Some s"
| "run ((now, opn) # ops) s =
     (case perform now opn s of
        None \<Rightarrow> None
      | Some (_, s') \<Rightarrow> run ops s')"

section \<open>Notions used in the statements\<close>

text \<open>
  Between two operations no lock is held, the dictionary has one entry per key, and the
  list links exactly the nodes of the dictionary (invariant 1 of the data model).
\<close>

definition cache_inv :: "AsyncLRUCache \<Rightarrow> bool" where
  "cache_inv c \<longleftrightarrow>
     \<not> cache_lock c \<and> \<not> dll_lock (dll c) \<and>
     distinct (map fst (cache c)) \<and> distinct (chain (dll c)) \<and>
     set (chain (dll c)) = fst ` set (cache c)"

definition store_inv :: "AsyncKeyValueStore \<Rightarrow> bool" where
  "store_inv s \<longleftrightarrow> \<not> store_lock s \<and> cache_inv (store_cache s)"

text \<open>The records of the log, none when the file does not exist.\<close>

definition wal :: "AsyncKeyValueStore \<Rightarrow> log_entry list" where
  "wal s = (case log_file s of None \<Rightarrow> [] | Some es \<Rightarrow> es)"

text \<open>What \<^verbatim>\<open>size(namespace)\<close> of the store counts.\<close>

definition count_keys :: "string option \<Rightarrow> AsyncLRUCache \<Rightarrow> int" where
  "count_keys namespace c =
     (case namespace of
        None \<Rightarrow> int (length (cache c))
      | Some ns \<Rightarrow> int (length (filter (\<lambda>key. startswith key (ns @ '':'')) (map fst (cache c)))))"

text \<open>The counters of a namespace as \<^verbatim>\<open>_init_namespace_stats\<close> leaves them.\<close>

definition ns_entry :: "AsyncKeyValueStore \<Rightarrow> string option \<Rightarrow> ns_stats" where
  "ns_entry s namespace =
     (case namespace_stats s (ns_label namespace) of
        None \<Rightarrow> \<lparr>ns_cache_hits = 0, ns_cache_misses = 0, total_keys = 0\<rparr>
      | Some st \<Rightarrow> st)"

text \<open>
  A store between two operations that holds the single entry \<^verbatim>\<open>k\<close> with value \<^verbatim>\<open>v\<close>,
  expiring at instant 5.
\<close>

definition example_store :: AsyncKeyValueStore where
  "example_store =
     \<lparr>store_cache =
        \<lparr>capacity = 2,
         cache = [(''k'', \<lparr>node_key = ''k'', node_value = Some ''v'', expires_at = Some 5,
                          access_time = 0\<rparr>)],
         dll = \<lparr>chain = [''k''], dll_lock = False\<rparr>,
         cache_lock = False\<rparr>,
      log_file = None,
      store_lock = False,
      stats = \<lparr>cache_hits = 0, cache_misses = 0, evictions = 0, log_size = 0,
               last_compaction = None, start_time = 0\<rparr>,
      namespace_stats = Map.empty\<rparr>"

text \<open>
  A store between two operations that holds the single entry \<^verbatim>\<open>k\<close> of the namespace
  \<^verbatim>\<open>app\<close>, expiring at instant 5, and counters of that namespace.
\<close>

definition example_ns_store :: AsyncKeyValueStore where
  "example_ns_store =
     \<lparr>store_cache =
        \<lparr>capacity = 2,
         cache = [(''app:k'', \<lparr>node_key = ''app:k'', node_value = Some ''v'',
                              expires_at = Some 5, access_time = 0\<rparr>)],
         dll = \<lparr>chain = [''app:k''], dll_lock = False\<rparr>,
         cache_lock = False\<rparr>,
      log_file = None,
      store_lock = False,
      stats = \<lparr>cache_hits = 0, cache_misses = 0, evictions = 0, log_size = 0,
               last_compaction = None, start_time = 0\<rparr>,
      namespace_stats =
        [''app'' \<mapsto> \<lparr>ns_cache_hits = 2, ns_cache_misses = 1, total_keys = 1\<rparr>]\<rparr>"

text \<open>The value and the expiry stored under a full key.\<close>

definition entry_of :: "AsyncLRUCache \<Rightarrow> string \<Rightarrow> (string option \<times> real option) option" where
  "entry_of c key = map_option (\<lambda>node. (node_value node, expires_at node)) (map_of (cache c) key)"

text \<open>What a read of a full key at a clock reading yields: the value of a live entry.\<close>

definition visible :: "AsyncLRUCache \<Rightarrow> string \<Rightarrow> real \<Rightarrow> string option" where
  "visible c key now =
     (case map_of (cache c) key of
        None \<Rightarrow> None
      | Some node \<Rightarrow> if is_expired node now then None else node_value node)"

text \<open>The full key an operation writes to, if it is a \<^verbatim>\<open>set\<close>.\<close>

fun written_key :: "operation \<Rightarrow> string option" where
  "written_key (OpSet key val ttl namespace) = Some (make_namespaced_key namespace key)"
| "written_key (OpGet key namespace) = None"
| "written_key (OpDelete key namespace) = None"

text \<open>The \<^verbatim>\<open>total_keys\<close> recorded under the label \<^verbatim>\<open>default\<close>.\<close>

definition default_total_keys :: "AsyncKeyValueStore \<Rightarrow> int option" where
  "default_total_keys s = map_option total_keys (namespace_stats s ''default'')"

text \<open>
  The entries that compaction writes: those without an expiry (an expiry equal to 0.0
  counts as none in \<^verbatim>\<open>if expires_at:\<close>) and those with at least one whole second left.
\<close>

definition compaction_keeps :: "AsyncNode \<Rightarrow> real \<Rightarrow> bool" where
  "compaction_keeps node now =
     (case expires_at node of
        None \<Rightarrow> True
      | Some e \<Rightarrow> e = 0 \<and> now \<le> 0 \<or> now + 1 \<le> e)"

text \<open>The record that compaction writes for an entry.\<close>

definition compacted_record :: "real \<Rightarrow> string \<times> AsyncNode \<Rightarrow> log_entry" where
  "compacted_record now item =
     \<lparr>timestamp = now, action = ''SET'',
      entry_key = snd (parse_namespaced_key (fst item)),
      entry_value = node_value (snd item),
      entry_ttl = remaining_seconds (expires_at (snd item)) now,
      entry_namespace = fst (parse_namespaced_key (fst item))\<rparr>"

text \<open>The items of \<^verbatim>\<open>current_state\<close> for a dictionary: one per entry that is not expired.\<close>

definition live_items ::
  "real \<Rightarrow> (string \<times> AsyncNode) list \<Rightarrow> (string \<times> string option \<times> real option) list" where
  "live_items now al =
     map (\<lambda>(key, node). (key, node_value node, expires_at node))
       (filter (\<lambda>(key, node). \<not> is_expired node now) al)"

text \<open>The full keys that the \<^verbatim>\<open>set\<close> operations of a sequence write to.\<close>

definition written_keys :: "(real \<times> operation) list \<Rightarrow> string list" where
  "written_keys ops = List.map_filter (\<lambda>(t, opn). written_key opn) ops"

text \<open>The value an operation writes, if it is a \<^verbatim>\<open>set\<close>.\<close>

fun written_value :: "operation \<Rightarrow> string option" where
  "written_value (OpSet key val ttl namespace) = Some val"
| "written_value (OpGet key namespace) = None"
| "written_value (OpDelete key namespace) = None"

text \<open>The value of the last \<^verbatim>\<open>set\<close> of a sequence that writes to a full key.\<close>

fun last_set :: "string \<Rightarrow> (real \<times> operation) list \<Rightarrow> string option" where
  "last_set full_key [] = None"
| "last_set full_key ((t, opn) # ops) =
     (case last_set full_key ops of
        Some v \<Rightarrow> Some v
      | None \<Rightarrow> if written_key opn = Some full_key then written_value opn else None)"

text \<open>
  The operations whose time to live, if any, is an \<^verbatim>\<open>int\<close> that a float can hold: they
  do not raise.
\<close>

fun ttl_in_range :: "operation \<Rightarrow> bool" where
  "ttl_in_range (OpSet key val ttl namespace) =
     (case ttl of None \<Rightarrow> True | Some t \<Rightarrow> \<bar>t\<bar> < 2 ^ 1024 - 2 ^ 970)"
| "ttl_in_range (OpGet key namespace) = True"
| "ttl_in_range (OpDelete key namespace) = True"

text \<open>The records an operation that returns appends to the log.\<close>

fun logged :: "real \<Rightarrow> operation \<Rightarrow> AsyncLRUCache \<Rightarrow> log_entry list" where
  "logged now (OpSet key val ttl namespace) c =
     [\<lparr>timestamp = now, action = ''SET'', entry_key = key, entry_value = Some val,
       entry_ttl = ttl, entry_namespace = namespace\<rparr>]"
| "logged now (OpGet key namespace) c = []"
| "logged now (OpDelete key namespace) c =
     (if entry_of c (make_namespaced_key namespace key) \<noteq> None
      then [\<lparr>timestamp = now, action = ''DEL'', entry_key = key, entry_value = None,
             entry_ttl = None, entry_namespace = namespace\<rparr>]
      else [])"

text \<open>
  Every entry of the cache \<open>c\<close> whose expiry, if any, lies after the instant of the
  replay is an entry of the replayed cache \<open>c_r\<close>, with the same value and expiry.
\<close>

definition replay_covers :: "real \<Rightarrow> AsyncLRUCache \<Rightarrow> AsyncLRUCache \<Rightarrow> bool" where
  "replay_covers now_r c c_r \<longleftrightarrow>
     (\<forall>full_key v e. entry_of c full_key = Some (v, e) \<and> (\<forall>x. e = Some x \<longrightarrow> now_r < x)
        \<longrightarrow> entry_of c_r full_key = Some (v, e))"

text \<open>
  Restart: a new process creates a store object with the given capacity on the log
  file that the old store left behind, and runs \<^verbatim>\<open>initialize\<close>.
\<close>

definition reopen :: "int \<Rightarrow> real \<Rightarrow> (error + unit, AsyncKeyValueStore) coroutine" where
  "reopen cap now s = initialize now (AsyncKeyValueStore_init cap (log_file s) now)"

section \<open>Coroutines whose locks are free\<close>

text \<open>
  With no lock held at the call, every coroutine of the list but \<^verbatim>\<open>remove_from_end\<close>
  returns, and \<^verbatim>\<open>remove_from_end\<close> returns on the empty list only. Every coroutine of
  the cache but \<^verbatim>\<open>put\<close> returns, and its effect is an update of the chain and of the
  dictionary; \<^verbatim>\<open>put\<close> does not return when it has to evict from a list that is not
  empty, and otherwise returns or raises as the computation of the expiry does.
\<close>

lemma remove_node_free:
  "\<not> dll_lock l \<Longrightarrow> remove_node k l = Some ((), l\<lparr>chain := remove1 k (chain l)\<rparr>)"
  by (cases l) (simp add: remove_node_def with_dll_lock_def)

lemma add_to_front_free:
  "\<not> dll_lock l \<Longrightarrow> add_to_front k l = Some ((), l\<lparr>chain := k # chain l\<rparr>)"
  by (cases l) (simp add: add_to_front_def with_dll_lock_def)

lemma move_to_front_free:
  "\<not> dll_lock l \<Longrightarrow> move_to_front k l = Some ((), l\<lparr>chain := k # remove1 k (chain l)\<rparr>)"
  by (simp add: move_to_front_def remove_node_free add_to_front_free)

lemma remove_node_held: "dll_lock l \<Longrightarrow> remove_node k l = None"
  by (simp add: remove_node_def with_dll_lock_def)

lemma remove_from_end_free:
  "\<not> dll_lock l \<Longrightarrow> remove_from_end l = (if chain l = [] then Some (None, l) else None)"
  by (cases l) (simp add: remove_from_end_def with_dll_lock_def remove_node_held Let_def)

lemma cache_get_free:
  "\<not> cache_lock c \<Longrightarrow> \<not> dll_lock (dll c) \<Longrightarrow>
   cache_get k now c =
     (case map_of (cache c) k of
        None \<Rightarrow> Some (None, c)
      | Some node \<Rightarrow>
          if is_expired node now
          then Some (None, c\<lparr>cache := AList.delete k (cache c),
                            dll := (dll c)\<lparr>chain := remove1 k (chain (dll c))\<rparr>\<rparr>)
          else Some (node_value node,
                     c\<lparr>cache := AList.update k (node\<lparr>access_time := now\<rparr>) (cache c),
                       dll := (dll c)\<lparr>chain := k # remove1 k (chain (dll c))\<rparr>\<rparr>))"
  by (cases c)
     (simp add: cache_get_def with_cache_lock_def remove_node_internal_def on_dll_def
        remove_node_free move_to_front_free split: option.splits)

lemma cache_get_raw_free:
  "\<not> cache_lock c \<Longrightarrow> \<not> dll_lock (dll c) \<Longrightarrow>
   cache_get_raw k now c =
     (case map_of (cache c) k of
        None \<Rightarrow> Some (None, c)
      | Some node \<Rightarrow>
          if is_expired node now
          then Some (None, c\<lparr>cache := AList.delete k (cache c),
                            dll := (dll c)\<lparr>chain := remove1 k (chain (dll c))\<rparr>\<rparr>)
          else Some (Some (node_value node, expires_at node), c))"
  by (cases c)
     (simp add: cache_get_raw_def with_cache_lock_def remove_node_internal_def on_dll_def
        remove_node_free split: option.splits)

lemma cache_delete_free:
  "\<not> cache_lock c \<Longrightarrow> \<not> dll_lock (dll c) \<Longrightarrow>
   cache_delete k c =
     (case map_of (cache c) k of
        None \<Rightarrow> Some (False, c)
      | Some node \<Rightarrow>
          Some (True, c\<lparr>cache := AList.delete k (cache c),
                        dll := (dll c)\<lparr>chain := remove1 k (chain (dll c))\<rparr>\<rparr>))"
  by (cases c)
     (simp add: cache_delete_def with_cache_lock_def remove_node_internal_def on_dll_def
        remove_node_free split: option.splits)

lemma cache_put_free:
  "\<not> cache_lock c \<Longrightarrow> \<not> dll_lock (dll c) \<Longrightarrow>
   cache_put k v ttl now c =
     (case map_of (cache c) k of
        Some node \<Rightarrow>
          (case expiry ttl now of
             Inl e \<Rightarrow> Some (Inl e, c\<lparr>cache := AList.update k (node\<lparr>node_value := v\<rparr>) (cache c)\<rparr>)
           | Inr expires \<Rightarrow>
               Some (Inr (), c\<lparr>cache := AList.update k
                                (node\<lparr>node_value := v, expires_at := expires, access_time := now\<rparr>)
                                (cache c),
                             dll := (dll c)\<lparr>chain := k # remove1 k (chain (dll c))\<rparr>\<rparr>))
      | None \<Rightarrow>
          if capacity c \<le> int (length (cache c)) \<and> chain (dll c) \<noteq> [] then None
          else (case expiry ttl now of
                  Inl e \<Rightarrow> Some (Inl e, c)
                | Inr expires \<Rightarrow>
                    Some (Inr (), c\<lparr>cache := AList.update k
                                     \<lparr>node_key = k, node_value = v, expires_at = expires,
                                      access_time = now\<rparr> (cache c),
                                  dll := (dll c)\<lparr>chain := k # chain (dll c)\<rparr>\<rparr>)))"
  by (cases c)
     (simp add: cache_put_def with_cache_lock_def on_dll_def AsyncNode_init_def
        remove_from_end_free move_to_front_free add_to_front_free split: option.splits sum.splits)

text \<open>The four ways in which \<^verbatim>\<open>put\<close> ends when it does not wait for a lock.\<close>

lemma cache_put_cases:
  assumes "cache_inv c" and "cache_put k v ttl now c = Some (r, c')"
  obtains
    (raised_present) e node where
      "r = Inl e" "expiry ttl now = Inl e" "map_of (cache c) k = Some node"
      "c' = c\<lparr>cache := AList.update k (node\<lparr>node_value := v\<rparr>) (cache c)\<rparr>"
  | (raised_absent) e where
      "r = Inl e" "expiry ttl now = Inl e" "map_of (cache c) k = None" "c' = c"
  | (updated) expires node where
      "r = Inr ()" "expiry ttl now = Inr expires" "map_of (cache c) k = Some node"
      "c' = c\<lparr>cache := AList.update k
                 (node\<lparr>node_value := v, expires_at := expires, access_time := now\<rparr>) (cache c),
              dll := (dll c)\<lparr>chain := k # remove1 k (chain (dll c))\<rparr>\<rparr>"
  | (inserted) expires where
      "r = Inr ()" "expiry ttl now = Inr expires" "map_of (cache c) k = None"
      "\<not> (capacity c \<le> int (length (cache c)) \<and> chain (dll c) \<noteq> [])"
      "c' = c\<lparr>cache := AList.update k
                 \<lparr>node_key = k, node_value = v, expires_at = expires, access_time = now\<rparr> (cache c),
              dll := (dll c)\<lparr>chain := k # chain (dll c)\<rparr>\<rparr>"
proof -
  have free: "\<not> cache_lock c" "\<not> dll_lock (dll c)" using assms(1) by (simp_all add: cache_inv_def)
  show thesis
  proof (cases "map_of (cache c) k")
    case None
    note absent = None
    have room: "\<not> (capacity c \<le> int (length (cache c)) \<and> chain (dll c) \<noteq> [])"
      using assms(2) absent by (auto simp: cache_put_free[OF free] split: if_splits)
    show ?thesis
    proof (cases "expiry ttl now")
      case (Inl e)
      with assms(2) absent room have "r = Inl e" "c' = c"
        by (simp_all add: cache_put_free[OF free])
      then show ?thesis using raised_absent Inl absent by blast
    next
      case (Inr expires)
      with assms(2) absent room have "r = Inr ()"
        "c' = c\<lparr>cache := AList.update k
                 \<lparr>node_key = k, node_value = v, expires_at = expires, access_time = now\<rparr> (cache c),
              dll := (dll c)\<lparr>chain := k # chain (dll c)\<rparr>\<rparr>"
        by (simp_all add: cache_put_free[OF free])
      then show ?thesis using inserted Inr absent room by blast
    qed
  next
    case (Some node)
    show ?thesis
    proof (cases "expiry ttl now")
      case (Inl e)
      with assms(2) Some have "r = Inl e"
        "c' = c\<lparr>cache := AList.update k (node\<lparr>node_value := v\<rparr>) (cache c)\<rparr>"
        by (simp_all add: cache_put_free[OF free])
      then show ?thesis using raised_present Inl Some by blast
    next
      case (Inr expires)
      with assms(2) Some have "r = Inr ()"
        "c' = c\<lparr>cache := AList.update k
                 (node\<lparr>node_value := v, expires_at := expires, access_time := now\<rparr>) (cache c),
              dll := (dll c)\<lparr>chain := k # remove1 k (chain (dll c))\<rparr>\<rparr>"
        by (simp_all add: cache_put_free[OF free])
      then show ?thesis using updated Inr Some by blast
    qed
  qed
qed

lemma cache_size_free:
  "\<not> cache_lock c \<Longrightarrow> cache_size c = Some (int (length (cache c)), c)"
  by (cases c) (simp add: cache_size_def with_cache_lock_def)

lemma cache_get_all_keys_free:
  "\<not> cache_lock c \<Longrightarrow> cache_get_all_keys c = Some (map fst (cache c), c)"
  by (cases c) (simp add: cache_get_all_keys_def with_cache_lock_def)

lemma with_cache_lock_released:
  "with_cache_lock body c = Some (r, c') \<Longrightarrow> \<not> cache_lock c'"
  by (auto simp: with_cache_lock_def split: if_splits option.splits)

lemma cache_put_released: "cache_put k v ttl now c = Some (r, c') \<Longrightarrow> \<not> cache_lock c'"
  unfolding cache_put_def by (rule with_cache_lock_released)

lemma cache_get_released: "cache_get k now c = Some (r, c') \<Longrightarrow> \<not> cache_lock c'"
  unfolding cache_get_def by (rule with_cache_lock_released)

lemma cache_delete_released: "cache_delete k c = Some (r, c') \<Longrightarrow> \<not> cache_lock c'"
  unfolding cache_delete_def by (rule with_cache_lock_released)

section \<open>The facade with its lock free\<close>

text \<open>
  A method of the facade returns exactly when the method of the cache that it awaits
  returns, and its effect on the cache is the effect of that method.
\<close>

lemma store_size_free:
  "\<not> cache_lock (store_cache s) \<Longrightarrow>
   store_size namespace s = Some (count_keys namespace (store_cache s), s)"
  by (cases s)
     (simp add: store_size_def on_cache_def cache_size_free cache_get_all_keys_free
        count_keys_def split: option.splits)

lemma store_get_unlocked:
  "\<not> store_lock s \<Longrightarrow>
   store_get key namespace now s =
     (case cache_get (make_namespaced_key namespace key) now (store_cache s) of
        None \<Rightarrow> None
      | Some (val, c') \<Rightarrow>
          Some (val,
            s\<lparr>store_cache := c',
              stats := (if val \<noteq> None
                        then (stats s)\<lparr>cache_hits := cache_hits (stats s) + 1\<rparr>
                        else (stats s)\<lparr>cache_misses := cache_misses (stats s) + 1\<rparr>),
              namespace_stats := (namespace_stats s)(ns_label namespace \<mapsto>
                 (if val \<noteq> None
                  then (ns_entry s namespace)\<lparr>ns_cache_hits := ns_cache_hits (ns_entry s namespace) + 1\<rparr>
                  else (ns_entry s namespace)\<lparr>ns_cache_misses := ns_cache_misses (ns_entry s namespace) + 1\<rparr>))\<rparr>))"
  by (cases s)
     (auto simp: store_get_def with_store_lock_def on_cache_def Let_def init_namespace_stats_def
        update_ns_stats_def ns_entry_def split: option.splits)

lemma store_set_unlocked:
  "\<not> store_lock s \<Longrightarrow>
   store_set key val ttl namespace now s =
     (case cache_put (make_namespaced_key namespace key) (Some val) (map_option PyInt ttl)
             now (store_cache s) of
        None \<Rightarrow> None
      | Some (Inl e, c') \<Rightarrow> Some (Inl e, s\<lparr>store_cache := c'\<rparr>)
      | Some (Inr _, c') \<Rightarrow>
          Some (Inr (),
            s\<lparr>store_cache := c',
              log_file := Some (wal s @
                [\<lparr>timestamp = now, action = ''SET'', entry_key = key, entry_value = Some val,
                  entry_ttl = ttl, entry_namespace = namespace\<rparr>]),
              stats := (stats s)\<lparr>log_size := log_size (stats s) + 1\<rparr>,
              namespace_stats := (namespace_stats s)(ns_label namespace \<mapsto>
                 (ns_entry s namespace)\<lparr>total_keys := count_keys namespace c'\<rparr>)\<rparr>))"
proof (cases "cache_put (make_namespaced_key namespace key) (Some val) (map_option PyInt ttl)
             now (store_cache s)")
  case None
  then show ?thesis
    by (simp add: store_set_def with_store_lock_def on_cache_def Let_def)
next
  case (Some a)
  obtain r c' where a: "a = (r, c')" by (cases a)
  have rel: "\<not> cache_lock c'" using Some a cache_put_released by blast
  assume u: "\<not> store_lock s"
  show ?thesis
  proof (cases r)
    case (Inl e)
    with u Some a show ?thesis
      by (cases s) (simp add: store_set_def with_store_lock_def on_cache_def Let_def)
  next
    case (Inr x)
    with u Some a rel show ?thesis
      by (cases s)
         (auto simp: store_set_def with_store_lock_def on_cache_def Let_def init_namespace_stats_def
            update_ns_stats_def ns_entry_def log_operation_def wal_def store_size_free
            split: option.splits)
  qed
qed

lemma store_delete_unlocked:
  "\<not> store_lock s \<Longrightarrow>
   store_delete key namespace now s =
     (case cache_delete (make_namespaced_key namespace key) (store_cache s) of
        None \<Rightarrow> None
      | Some (deleted, c') \<Rightarrow>
          if deleted then
            Some (True,
              s\<lparr>store_cache := c',
                log_file := Some (wal s @
                  [\<lparr>timestamp = now, action = ''DEL'', entry_key = key, entry_value = None,
                    entry_ttl = None, entry_namespace = namespace\<rparr>]),
                stats := (stats s)\<lparr>log_size := log_size (stats s) + 1\<rparr>,
                namespace_stats := (namespace_stats s)(ns_label namespace \<mapsto>
                   (ns_entry s namespace)\<lparr>total_keys := count_keys namespace c'\<rparr>)\<rparr>)
          else Some (False, s\<lparr>store_cache := c'\<rparr>))"
proof (cases "cache_delete (make_namespaced_key namespace key) (store_cache s)")
  case None
  then show ?thesis
    by (simp add: store_delete_def with_store_lock_def on_cache_def Let_def)
next
  case (Some a)
  obtain u c' where a: "a = (u, c')" by (cases a)
  have rel: "\<not> cache_lock c'" using Some a cache_delete_released by blast
  assume "\<not> store_lock s"
  then show ?thesis using Some a rel
    by (cases s)
       (auto simp: store_delete_def with_store_lock_def on_cache_def Let_def init_namespace_stats_def
          update_ns_stats_def ns_entry_def log_operation_def wal_def store_size_free
          split: option.splits)
qed

section \<open>The invariant is kept\<close>

lemma length_update:
  "length (AList.update k v al) = (if k \<in> fst ` set al then length al else Suc (length al))"
proof -
  have "length (AList.update k v al) = length (map fst (AList.update k v al))" by simp
  also have "\<dots> = (if k \<in> fst ` set al then length al else Suc (length al))"
    by (simp only: update_keys) simp
  finally show ?thesis .
qed

lemma keys_delete: "fst ` set (AList.delete k al) = fst ` set al - {k}"
proof -
  have "set (map fst (AList.delete k al)) = set (map fst al) - {k}"
    by (simp only: delete_keys set_removeAll)
  then show ?thesis by simp
qed

lemma map_of_in_keys: "map_of al k = Some v \<Longrightarrow> k \<in> fst ` set al"
  by (metis domI dom_map_of_conv_image_fst)

lemma map_of_notin_keys: "map_of al k = None \<Longrightarrow> k \<notin> fst ` set al"
  by (simp add: map_of_eq_None_iff)

lemma inv_dropped:
  assumes "cache_inv c"
  shows "cache_inv (c\<lparr>cache := AList.delete k (cache c),
                      dll := (dll c)\<lparr>chain := remove1 k (chain (dll c))\<rparr>\<rparr>)"
  using assms
  by (simp add: cache_inv_def distinct_delete keys_delete set_remove1_eq)

lemma inv_promoted:
  assumes "cache_inv c"
  shows "cache_inv (c\<lparr>cache := AList.update k node (cache c),
                      dll := (dll c)\<lparr>chain := k # remove1 k (chain (dll c))\<rparr>\<rparr>)"
  using assms
  by (simp add: cache_inv_def distinct_update dom_update set_remove1_eq insert_absorb)

lemma inv_inserted:
  assumes "cache_inv c" and "map_of (cache c) k = None"
  shows "cache_inv (c\<lparr>cache := AList.update k node (cache c),
                      dll := (dll c)\<lparr>chain := k # chain (dll c)\<rparr>\<rparr>)"
  using assms map_of_notin_keys[OF assms(2)]
  by (simp add: cache_inv_def distinct_update dom_update)

lemma inv_overwritten:
  assumes "cache_inv c" and "map_of (cache c) k = Some node"
  shows "cache_inv (c\<lparr>cache := AList.update k node' (cache c)\<rparr>)"
  using assms map_of_in_keys[OF assms(2)]
  by (simp add: cache_inv_def distinct_update dom_update insert_absorb)

lemma cache_inv_put:
  assumes "cache_inv c" and "cache_put k v ttl now c = Some (r, c')"
  shows "cache_inv c' \<and> capacity c' = capacity c"
  using assms
proof (cases rule: cache_put_cases)
  case (raised_present e node)
  then show ?thesis using inv_overwritten[OF assms(1)] by simp
next
  case (raised_absent e)
  then show ?thesis using assms(1) by simp
next
  case (updated expires node)
  then show ?thesis using inv_promoted[OF assms(1)] by simp
next
  case (inserted expires)
  then show ?thesis using inv_inserted[OF assms(1)] by simp
qed

lemma cache_inv_get:
  assumes "cache_inv c" and "cache_get k now c = Some (r, c')"
  shows "cache_inv c' \<and> capacity c' = capacity c"
proof -
  have free: "\<not> cache_lock c" "\<not> dll_lock (dll c)" using assms(1) by (simp_all add: cache_inv_def)
  show ?thesis
  proof (cases "map_of (cache c) k")
    case None
    with assms show ?thesis by (simp add: cache_get_free[OF free])
  next
    case (Some node)
    show ?thesis
    proof (cases "is_expired node now")
      case True
      with Some assms(2) have
        "c' = c\<lparr>cache := AList.delete k (cache c),
                dll := (dll c)\<lparr>chain := remove1 k (chain (dll c))\<rparr>\<rparr>"
        by (simp add: cache_get_free[OF free])
      then show ?thesis using inv_dropped[OF assms(1)] by simp
    next
      case False
      with Some assms(2) have
        "c' = c\<lparr>cache := AList.update k (node\<lparr>access_time := now\<rparr>) (cache c),
                dll := (dll c)\<lparr>chain := k # remove1 k (chain (dll c))\<rparr>\<rparr>"
        by (simp add: cache_get_free[OF free])
      then show ?thesis using inv_promoted[OF assms(1)] by simp
    qed
  qed
qed

lemma cache_inv_get_raw:
  assumes "cache_inv c" and "cache_get_raw k now c = Some (r, c')"
  shows "cache_inv c' \<and> capacity c' = capacity c"
proof -
  have free: "\<not> cache_lock c" "\<not> dll_lock (dll c)" using assms(1) by (simp_all add: cache_inv_def)
  show ?thesis
  proof (cases "map_of (cache c) k")
    case None
    with assms show ?thesis by (simp add: cache_get_raw_free[OF free])
  next
    case (Some node)
    show ?thesis
    proof (cases "is_expired node now")
      case True
      with Some assms(2) have
        "c' = c\<lparr>cache := AList.delete k (cache c),
                dll := (dll c)\<lparr>chain := remove1 k (chain (dll c))\<rparr>\<rparr>"
        by (simp add: cache_get_raw_free[OF free])
      then show ?thesis using inv_dropped[OF assms(1)] by simp
    next
      case False
      with Some assms show ?thesis by (simp add: cache_get_raw_free[OF free])
    qed
  qed
qed

lemma cache_inv_delete:
  assumes "cache_inv c" and "cache_delete k c = Some (r, c')"
  shows "cache_inv c' \<and> capacity c' = capacity c"
proof -
  have free: "\<not> cache_lock c" "\<not> dll_lock (dll c)" using assms(1) by (simp_all add: cache_inv_def)
  show ?thesis
  proof (cases "map_of (cache c) k")
    case None
    with assms show ?thesis by (simp add: cache_delete_free[OF free])
  next
    case (Some node)
    with assms(2) have
      "c' = c\<lparr>cache := AList.delete k (cache c),
              dll := (dll c)\<lparr>chain := remove1 k (chain (dll c))\<rparr>\<rparr>"
      by (simp add: cache_delete_free[OF free])
    then show ?thesis using inv_dropped[OF assms(1)] by simp
  qed
qed

lemma cache_inv_init: "cache_inv (AsyncLRUCache_init cap)"
  by (simp add: cache_inv_def AsyncLRUCache_init_def AsyncDoublyLinkedList_init_def)

lemma store_inv_init: "store_inv (AsyncKeyValueStore_init cap file now)"
  by (simp add: store_inv_def AsyncKeyValueStore_init_def cache_inv_init)

lemma store_set_Some:
  assumes u: "\<not> store_lock s" and "store_set key val ttl ns now s = Some (r, s')"
  shows "cache_put (make_namespaced_key ns key) (Some val) (map_option PyInt ttl) now
           (store_cache s) = Some (r, store_cache s')"
    and "\<not> store_lock s'"
proof -
  let ?p = "cache_put (make_namespaced_key ns key) (Some val) (map_option PyInt ttl) now
           (store_cache s)"
  from assms(2) obtain r' c' where p: "?p = Some (r', c')"
    unfolding store_set_unlocked[OF u] by (cases ?p) auto
  with assms(2) have s': "r' = r" "store_cache s' = c'" "store_lock s' = store_lock s"
    unfolding store_set_unlocked[OF u] by (cases r'; auto)+
  show "?p = Some (r, store_cache s')" using p s' by simp
  show "\<not> store_lock s'" using s' u by simp
qed

lemma store_get_Some:
  assumes u: "\<not> store_lock s" and "store_get key ns now s = Some (r, s')"
  shows "cache_get (make_namespaced_key ns key) now (store_cache s) = Some (r, store_cache s')"
    and "\<not> store_lock s'"
proof -
  let ?p = "cache_get (make_namespaced_key ns key) now (store_cache s)"
  from assms(2) obtain c' where p: "?p = Some (r, c')"
    unfolding store_get_unlocked[OF u] by (cases ?p) auto
  with assms(2) have s': "store_cache s' = c'" "store_lock s' = store_lock s"
    unfolding store_get_unlocked[OF u] by auto
  show "?p = Some (r, store_cache s')" using p s' by simp
  show "\<not> store_lock s'" using s' u by simp
qed

lemma store_delete_Some:
  assumes u: "\<not> store_lock s" and "store_delete key ns now s = Some (r, s')"
  shows "cache_delete (make_namespaced_key ns key) (store_cache s) = Some (r, store_cache s')"
    and "\<not> store_lock s'"
proof -
  let ?p = "cache_delete (make_namespaced_key ns key) (store_cache s)"
  from assms(2) obtain c' where p: "?p = Some (r, c')"
    unfolding store_delete_unlocked[OF u] by (cases ?p) (auto split: if_splits)
  with assms(2) have s': "store_cache s' = c'" "store_lock s' = store_lock s"
    unfolding store_delete_unlocked[OF u] by (auto split: if_splits)
  show "?p = Some (r, store_cache s')" using p s' by simp
  show "\<not> store_lock s'" using s' u by simp
qed

lemma store_inv_perform:
  assumes "store_inv s" and "perform now opn s = Some (r, s')"
  shows "store_inv s' \<and> capacity (store_cache s') = capacity (store_cache s)"
proof -
  have ci: "cache_inv (store_cache s)" and u: "\<not> store_lock s"
    using assms(1) by (simp_all add: store_inv_def)
  show ?thesis
  proof (cases opn)
    case (OpSet key val ttl ns)
    with assms(2) obtain r1 where "store_set key val ttl ns now s = Some (r1, s')"
      by (auto split: option.splits sum.splits)
    then show ?thesis
      using store_set_Some[OF u] cache_inv_put[OF ci] by (simp add: store_inv_def) blast
  next
    case (OpGet key ns)
    with assms(2) obtain v where "store_get key ns now s = Some (v, s')"
      by (auto split: option.splits)
    then show ?thesis
      using store_get_Some[OF u] cache_inv_get[OF ci] by (simp add: store_inv_def) blast
  next
    case (OpDelete key ns)
    with assms(2) obtain d where "store_delete key ns now s = Some (d, s')"
      by (auto split: option.splits)
    then show ?thesis
      using store_delete_Some[OF u] cache_inv_delete[OF ci] by (simp add: store_inv_def) blast
  qed
qed

lemma store_inv_run:
  "store_inv s \<Longrightarrow> run ops s = Some s' \<Longrightarrow>
   store_inv s' \<and> capacity (store_cache s') = capacity (store_cache s)"
proof (induction ops arbitrary: s)
  case Nil
  then show ?case by simp
next
  case (Cons a ops)
  obtain now opn where a: "a = (now, opn)" by (cases a)
  from Cons.prems(2) a obtain r s1 where
    p: "perform now opn s = Some (r, s1)" and rest: "run ops s1 = Some s'"
    by (auto split: option.splits)
  from store_inv_perform[OF Cons.prems(1) p] Cons.IH[OF _ rest] show ?case by simp
qed

text \<open>
  On a store between two operations, \<^verbatim>\<open>set\<close> fails to return exactly when it has to
  evict a node: the full key is new, the number of entries has reached the capacity and
  the cache is not empty.
\<close>

lemma store_set_blocks_iff:
  assumes "store_inv s"
  shows "store_set key val ttl namespace now s = None \<longleftrightarrow>
           map_of (cache (store_cache s)) (make_namespaced_key namespace key) = None \<and>
           capacity (store_cache s) \<le> int (length (cache (store_cache s))) \<and>
           cache (store_cache s) \<noteq> []"
proof -
  let ?c = "store_cache s" and ?fk = "make_namespaced_key namespace key"
  have u: "\<not> store_lock s" and free: "\<not> cache_lock ?c" "\<not> dll_lock (dll ?c)"
    and same: "set (chain (dll ?c)) = fst ` set (cache ?c)"
    using assms by (simp_all add: store_inv_def cache_inv_def)
  have "chain (dll ?c) = [] \<longleftrightarrow> cache ?c = []"
  proof
    assume "chain (dll ?c) = []"
    with same have "fst ` set (cache ?c) = {}" by simp
    then show "cache ?c = []" by simp
  next
    assume "cache ?c = []"
    with same have "set (chain (dll ?c)) = {}" by simp
    then show "chain (dll ?c) = []" by simp
  qed
  then show ?thesis
    by (cases "map_of (cache ?c) ?fk"; cases "expiry (map_option PyInt ttl) now")
       (simp_all add: store_set_unlocked[OF u] cache_put_free[OF free])
qed

section \<open>The number of entries\<close>

lemma cache_put_bound:
  assumes inv: "cache_inv c" and cap: "1 \<le> capacity c"
    and le: "int (length (cache c)) \<le> capacity c"
    and put: "cache_put k v ttl now c = Some (r, c')"
  shows "int (length (cache c')) \<le> capacity c'"
  using inv put
proof (cases rule: cache_put_cases)
  case (raised_present e node)
  have "k \<in> fst ` set (cache c)" using raised_present(3) by (rule map_of_in_keys)
  then show ?thesis using le raised_present(4) by (simp add: length_update)
next
  case (raised_absent e)
  then show ?thesis using le by simp
next
  case (updated expires node)
  have "k \<in> fst ` set (cache c)" using updated(3) by (rule map_of_in_keys)
  then show ?thesis using le updated(4) by (simp add: length_update)
next
  case (inserted expires)
  have nk: "k \<notin> fst ` set (cache c)" using inserted(3) by (rule map_of_notin_keys)
  have len: "length (cache c') = Suc (length (cache c))"
    using inserted(5) nk by (simp add: length_update)
  show ?thesis
  proof (cases "chain (dll c) = []")
    case True
    then have "fst ` set (cache c) = {}" using inv by (simp add: cache_inv_def)
    then have "cache c = []" by simp
    then show ?thesis using len cap inserted(5) by simp
  next
    case False
    then show ?thesis using inserted(4) len inserted(5) by simp
  qed
qed

lemma cache_get_bound:
  assumes inv: "cache_inv c"
    and le: "int (length (cache c)) \<le> capacity c"
    and get: "cache_get k now c = Some (r, c')"
  shows "int (length (cache c')) \<le> capacity c'"
proof -
  have free: "\<not> cache_lock c" "\<not> dll_lock (dll c)" using inv by (simp_all add: cache_inv_def)
  show ?thesis
  proof (cases "map_of (cache c) k")
    case None
    with get le show ?thesis by (simp add: cache_get_free[OF free])
  next
    case (Some node)
    have ik: "k \<in> fst ` set (cache c)" using Some by (rule map_of_in_keys)
    have d: "length (AList.delete k (cache c)) \<le> length (cache c)" by (rule length_delete_le)
    have e: "length (AList.update k (node\<lparr>access_time := now\<rparr>) (cache c)) = length (cache c)"
      using ik by (simp add: length_update)
    show ?thesis
    proof (cases "is_expired node now")
      case True
      with get Some have
        "c' = c\<lparr>cache := AList.delete k (cache c),
                dll := (dll c)\<lparr>chain := remove1 k (chain (dll c))\<rparr>\<rparr>"
        by (simp add: cache_get_free[OF free])
      then show ?thesis using le d by simp
    next
      case False
      with get Some have
        "c' = c\<lparr>cache := AList.update k (node\<lparr>access_time := now\<rparr>) (cache c),
                dll := (dll c)\<lparr>chain := k # remove1 k (chain (dll c))\<rparr>\<rparr>"
        by (simp add: cache_get_free[OF free])
      then show ?thesis using le e by simp
    qed
  qed
qed

lemma cache_delete_bound:
  assumes inv: "cache_inv c"
    and le: "int (length (cache c)) \<le> capacity c"
    and del: "cache_delete k c = Some (r, c')"
  shows "int (length (cache c')) \<le> capacity c'"
proof -
  have free: "\<not> cache_lock c" "\<not> dll_lock (dll c)" using inv by (simp_all add: cache_inv_def)
  have "length (AList.delete k (cache c)) \<le> length (cache c)" by (rule length_delete_le)
  with del le show ?thesis
    by (auto simp: cache_delete_free[OF free] split: option.splits)
qed

lemma perform_bound:
  assumes "store_inv s" and "1 \<le> capacity (store_cache s)"
    and "int (length (cache (store_cache s))) \<le> capacity (store_cache s)"
    and "perform now opn s = Some (r, s')"
  shows "int (length (cache (store_cache s'))) \<le> capacity (store_cache s')"
proof -
  have ci: "cache_inv (store_cache s)" and u: "\<not> store_lock s"
    using assms(1) by (simp_all add: store_inv_def)
  show ?thesis
  proof (cases opn)
    case (OpSet key val ttl ns)
    with assms(4) obtain r1 where "store_set key val ttl ns now s = Some (r1, s')"
      by (auto split: option.splits sum.splits)
    then show ?thesis
      using store_set_Some(1)[OF u] cache_put_bound[OF ci assms(2,3)] by blast
  next
    case (OpGet key ns)
    with assms(4) obtain v where "store_get key ns now s = Some (v, s')"
      by (auto split: option.splits)
    then show ?thesis
      using store_get_Some(1)[OF u] cache_get_bound[OF ci assms(3)] by blast
  next
    case (OpDelete key ns)
    with assms(4) obtain d where "store_delete key ns now s = Some (d, s')"
      by (auto split: option.splits)
    then show ?thesis
      using store_delete_Some(1)[OF u] cache_delete_bound[OF ci assms(3)] by blast
  qed
qed

lemma run_bound:
  "store_inv s \<Longrightarrow> 1 \<le> capacity (store_cache s) \<Longrightarrow>
   int (length (cache (store_cache s))) \<le> capacity (store_cache s) \<Longrightarrow>
   run ops s = Some s' \<Longrightarrow>
   int (length (cache (store_cache s'))) \<le> capacity (store_cache s')"
proof (induction ops arbitrary: s)
  case Nil
  then show ?case by simp
next
  case (Cons a ops)
  obtain now opn where a: "a = (now, opn)" by (cases a)
  from Cons.prems(4) a obtain r s1 where
    p: "perform now opn s = Some (r, s1)" and rest: "run ops s1 = Some s'"
    by (auto split: option.splits)
  have i1: "store_inv s1" and c1: "capacity (store_cache s1) = capacity (store_cache s)"
    using store_inv_perform[OF Cons.prems(1) p] by simp_all
  have b1: "int (length (cache (store_cache s1))) \<le> capacity (store_cache s1)"
    by (rule perform_bound[OF Cons.prems(1,2,3) p])
  show ?case using Cons.IH[OF i1 _ b1 rest] c1 Cons.prems(2) by simp
qed

lemma run_append:
  "run (ops1 @ ops2) s = (case run ops1 s of None \<Rightarrow> None | Some s1 \<Rightarrow> run ops2 s1)"
  by (induction ops1 arbitrary: s) (auto split: option.splits)

section \<open>What a read sees\<close>

lemma map_of_delete_same: "map_of (AList.delete k al) k = None"
  by (simp add: delete_conv')

lemma example_store_inv: "store_inv example_store"
  by (simp add: store_inv_def cache_inv_def example_store_def)

lemma example_ns_store_inv: "store_inv example_ns_store"
  by (simp add: store_inv_def cache_inv_def example_ns_store_def)

lemma visible_cong: "entry_of c key = entry_of c' key \<Longrightarrow> visible c key now = visible c' key now"
  by (auto simp: entry_of_def visible_def is_expired_def split: option.splits)

text \<open>
  \<^verbatim>\<open>put\<close> touches the entry of its key only. When it returns, the entry holds the value
  and the expiry of the call; when it raises, an entry that was present holds the value
  of the call with the expiry it had.
\<close>

lemma cache_put_other:
  assumes "cache_inv c" and "cache_put k v ttl now c = Some (r, c')" and "k' \<noteq> k"
  shows "entry_of c' k' = entry_of c k'"
  using assms(1,2)
  by (cases rule: cache_put_cases) (simp_all add: entry_of_def update_conv' assms(3))

lemma cache_put_entry:
  assumes "cache_inv c" and "cache_put k v ttl now c = Some (Inr u, c')"
  shows "\<exists>expires. expiry ttl now = Inr expires \<and>
           (\<forall>k'. entry_of c' k' = (if k' = k then Some (v, expires) else entry_of c k'))"
  using assms
  by (cases rule: cache_put_cases) (simp_all add: entry_of_def update_conv')

lemma cache_put_raised:
  assumes "cache_inv c" and "cache_put k v ttl now c = Some (Inl e, c')"
  shows "expiry ttl now = Inl e \<and>
         (\<forall>k'. entry_of c' k' =
            (if k' = k then map_option (\<lambda>(old, expires). (v, expires)) (entry_of c k)
             else entry_of c k'))"
  using assms
  by (cases rule: cache_put_cases) (simp_all add: entry_of_def update_conv')

lemma cache_get_entry:
  assumes "cache_inv c" and "cache_get k now c = Some (r, c')"
  shows "r = visible c k now"
    and "entry_of c' k' = (if k' = k \<and> (\<exists>node. map_of (cache c) k = Some node \<and> is_expired node now)
                           then None else entry_of c k')"
proof -
  have free: "\<not> cache_lock c" "\<not> dll_lock (dll c)" using assms(1) by (simp_all add: cache_inv_def)
  show "r = visible c k now"
    using assms(2) by (auto simp: cache_get_free[OF free] visible_def split: option.splits if_splits)
  show "entry_of c' k' = (if k' = k \<and> (\<exists>node. map_of (cache c) k = Some node \<and> is_expired node now)
                           then None else entry_of c k')"
  proof (cases "map_of (cache c) k")
    case None
    with assms(2) show ?thesis
      by (simp add: cache_get_free[OF free] entry_of_def)
  next
    case (Some node)
    show ?thesis
    proof (cases "is_expired node now")
      case True
      with Some assms(2) have
        "c' = c\<lparr>cache := AList.delete k (cache c),
                dll := (dll c)\<lparr>chain := remove1 k (chain (dll c))\<rparr>\<rparr>"
        by (simp add: cache_get_free[OF free])
      then show ?thesis using Some True
        by (simp add: entry_of_def visible_def delete_conv')
    next
      case False
      with Some assms(2) have
        "c' = c\<lparr>cache := AList.update k (node\<lparr>access_time := now\<rparr>) (cache c),
                dll := (dll c)\<lparr>chain := k # remove1 k (chain (dll c))\<rparr>\<rparr>"
        by (simp add: cache_get_free[OF free])
      then show ?thesis using Some False
        by (simp add: entry_of_def visible_def update_conv')
    qed
  qed
qed

lemma cache_delete_entry:
  assumes "cache_inv c" and "cache_delete k c = Some (r, c')"
  shows "r = (entry_of c k \<noteq> None)"
    and "entry_of c' k' = (if k' = k then None else entry_of c k')"
proof -
  have free: "\<not> cache_lock c" "\<not> dll_lock (dll c)" using assms(1) by (simp_all add: cache_inv_def)
  show "r = (entry_of c k \<noteq> None)"
    using assms(2) by (auto simp: cache_delete_free[OF free] entry_of_def split: option.splits)
  show "entry_of c' k' = (if k' = k then None else entry_of c k')"
  proof (cases "map_of (cache c) k")
    case None
    with assms(2) show ?thesis by (auto simp: cache_delete_free[OF free] entry_of_def)
  next
    case (Some node)
    with assms(2) have
      "c' = c\<lparr>cache := AList.delete k (cache c),
              dll := (dll c)\<lparr>chain := remove1 k (chain (dll c))\<rparr>\<rparr>"
      by (simp add: cache_delete_free[OF free])
    then show ?thesis by (simp add: entry_of_def delete_conv')
  qed
qed

lemma store_get_visible:
  assumes "store_inv s"
  shows "\<exists>s'. store_get key namespace now s =
           Some (visible (store_cache s) (make_namespaced_key namespace key) now, s')"
proof -
  have u: "\<not> store_lock s" and free: "\<not> cache_lock (store_cache s)" "\<not> dll_lock (dll (store_cache s))"
    using assms by (simp_all add: store_inv_def cache_inv_def)
  show ?thesis
    by (cases "map_of (cache (store_cache s)) (make_namespaced_key namespace key)")
       (simp_all add: store_get_unlocked[OF u] cache_get_free[OF free] visible_def)
qed

lemma perform_entry_other:
  assumes "store_inv s" and "perform now opn s = Some (r, s')"
    and "written_key opn \<noteq> Some fk"
  shows "entry_of (store_cache s') fk = entry_of (store_cache s) fk \<or>
         entry_of (store_cache s') fk = None"
proof -
  have ci: "cache_inv (store_cache s)" and u: "\<not> store_lock s"
    using assms(1) by (simp_all add: store_inv_def)
  show ?thesis
  proof (cases opn)
    case (OpSet key val ttl ns)
    with assms(2) obtain r1 where "store_set key val ttl ns now s = Some (r1, s')"
      by (auto split: option.splits sum.splits)
    then have "cache_put (make_namespaced_key ns key) (Some val) (map_option PyInt ttl) now
                 (store_cache s) = Some (r1, store_cache s')"
      using store_set_Some(1)[OF u] by blast
    from cache_put_other[OF ci this, of fk] assms(3) OpSet show ?thesis by auto
  next
    case (OpGet key ns)
    with assms(2) obtain v where "store_get key ns now s = Some (v, s')"
      by (auto split: option.splits)
    then have "cache_get (make_namespaced_key ns key) now (store_cache s) = Some (v, store_cache s')"
      using store_get_Some(1)[OF u] by blast
    from cache_get_entry(2)[OF ci this, of fk] show ?thesis by (auto split: if_splits)
  next
    case (OpDelete key ns)
    with assms(2) obtain d where "store_delete key ns now s = Some (d, s')"
      by (auto split: option.splits)
    then have "cache_delete (make_namespaced_key ns key) (store_cache s) = Some (d, store_cache s')"
      using store_delete_Some(1)[OF u] by blast
    from cache_delete_entry(2)[OF ci this, of fk] show ?thesis by (auto split: if_splits)
  qed
qed

lemma run_entry_other:
  "store_inv s \<Longrightarrow> run ops s = Some s' \<Longrightarrow>
   \<forall>(t, opn) \<in> set ops. written_key opn \<noteq> Some fk \<Longrightarrow>
   entry_of (store_cache s') fk = entry_of (store_cache s) fk \<or>
   entry_of (store_cache s') fk = None"
proof (induction ops arbitrary: s)
  case Nil
  then show ?case by simp
next
  case (Cons a ops)
  obtain now opn where a: "a = (now, opn)" by (cases a)
  from Cons.prems(2) a obtain r s1 where
    p: "perform now opn s = Some (r, s1)" and rest: "run ops s1 = Some s'"
    by (auto split: option.splits)
  have i1: "store_inv s1" using store_inv_perform[OF Cons.prems(1) p] by simp
  have w: "written_key opn \<noteq> Some fk" using Cons.prems(3) a by simp
  have r1: "\<forall>(t, opn) \<in> set ops. written_key opn \<noteq> Some fk" using Cons.prems(3) by simp
  from perform_entry_other[OF Cons.prems(1) p w] Cons.IH[OF i1 rest r1]
  show ?case by auto
qed

section \<open>Flattened keys\<close>

lemma full_keys_differ:
  assumes "ns1 \<noteq> ns2" and "ns1 \<notin> {None, Some ''''} \<or> ns2 \<notin> {None, Some ''''}"
  shows "make_namespaced_key ns1 key \<noteq> make_namespaced_key ns2 key"
proof -
  have bare: "a @ '':'' @ key \<noteq> key" for a :: string
  proof
    assume "a @ '':'' @ key = key"
    then have "length (a @ '':'' @ key) = length key" by simp
    then show False by simp
  qed
  have two: "a @ '':'' @ key \<noteq> b @ '':'' @ key" if "a \<noteq> b" for a b :: string
    using that by simp
  show ?thesis
  proof (cases ns1)
    case None
    with assms obtain b where "ns2 = Some b" "b \<noteq> []" by (cases ns2) auto
    with None bare[of b] show ?thesis by (auto simp: make_namespaced_key_def)
  next
    case (Some a)
    show ?thesis
    proof (cases ns2)
      case None
      with Some assms have "a \<noteq> []" by auto
      with Some None bare[of a] show ?thesis by (simp add: make_namespaced_key_def)
    next
      case (Some b)
      with \<open>ns1 = Some a\<close> assms have ab: "a \<noteq> b" "a \<noteq> [] \<or> b \<noteq> []" by auto
      show ?thesis
        using Some \<open>ns1 = Some a\<close> ab bare[of a] bare[of b] two[OF ab(1)]
        by (auto simp: make_namespaced_key_def)
    qed
  qed
qed

lemma store_locked_blocks:
  assumes "store_lock s"
  shows "store_set key val ttl namespace now s = None"
    and "store_get key namespace now s = None"
    and "store_delete key namespace now s = None"
  using assms by (simp_all add: store_set_def store_get_def store_delete_def with_store_lock_def Let_def)

lemma list_namespaces_nonempty:
  assumes "list_namespaces s = Some (nss, s')"
  shows "[] \<notin> set nss"
proof -
  from assms obtain all_keys where
    "nss = sort (remdups (concat (map
        (\<lambda>key. if CHR '':'' \<in> set key
                then (case fst (parse_namespaced_key key) of
                        None \<Rightarrow> []
                      | Some namespace \<Rightarrow> if namespace \<noteq> [] then [namespace] else [])
                else [])
        all_keys)))"
    by (auto simp: list_namespaces_def split: option.splits)
  then show ?thesis by (auto split: if_splits option.splits)
qed

section \<open>The two loops of compaction\<close>

lemma update_fresh: "k \<notin> fst ` set al \<Longrightarrow> AList.update k v al = al @ [(k, v)]"
  by (induction al) auto

lemma entry_of_distinct:
  "distinct (map fst al) \<Longrightarrow> (k, n) \<in> set al \<Longrightarrow> map_of al k = Some n"
  by (rule map_of_is_SomeI)

lemma compacted_live_items:
  "concat (map (compacted_entry now) (live_items now al)) =
   map (compacted_record now) (filter (\<lambda>(key, node). compaction_keeps node now) al)"
proof (induction al)
  case Nil
  then show ?case by (simp add: live_items_def)
next
  case (Cons a al)
  obtain k n where a: "a = (k, n)" by (cases a)
  have step: "(if is_expired n now then [] else compacted_entry now (k, node_value n, expires_at n)) =
        (if compaction_keeps n now then [compacted_record now (k, n)] else [])"
  proof (cases "expires_at n")
    case None
    then show ?thesis
      by (simp add: is_expired_def compaction_keeps_def compacted_entry_def compacted_record_def
            remaining_seconds_def split: prod.splits)
  next
    case (Some e)
    have fl: "0 < \<lfloor>e - now\<rfloor> \<longleftrightarrow> now + 1 \<le> e"
    proof -
      have "0 < \<lfloor>e - now\<rfloor> \<longleftrightarrow> 1 \<le> \<lfloor>e - now\<rfloor>" by linarith
      also have "\<dots> \<longleftrightarrow> 1 \<le> e - now" by (simp add: le_floor_iff)
      finally show ?thesis by linarith
    qed
    show ?thesis
    proof (cases "now > e")
      case True
      with Some show ?thesis
        by (auto simp: is_expired_def compaction_keeps_def)
    next
      case False
      then have nn: "0 \<le> e - now" by simp
      show ?thesis
        using Some False fl nn
        by (auto simp: is_expired_def compaction_keeps_def compacted_entry_def compacted_record_def
              remaining_seconds_def py_int_def Let_def split: prod.splits)
    qed
  qed
  have "concat (map (compacted_entry now) (live_items now (a # al))) =
        (if is_expired n now then [] else compacted_entry now (k, node_value n, expires_at n)) @
        concat (map (compacted_entry now) (live_items now al))"
    by (simp add: a live_items_def)
  also have "\<dots> = (if compaction_keeps n now then [compacted_record now (k, n)] else []) @
        map (compacted_record now) (filter (\<lambda>(key, node). compaction_keeps node now) al)"
    by (simp only: step Cons.IH)
  also have "\<dots> = map (compacted_record now) (filter (\<lambda>(key, node). compaction_keeps node now) (a # al))"
    by (simp add: a)
  finally show ?case .
qed

lemma snapshot_spec:
  "cache_inv c \<Longrightarrow> distinct (map fst al) \<Longrightarrow>
   (\<forall>(k, n) \<in> set al. map_of (cache c) k = Some n) \<Longrightarrow>
   fst ` set acc \<inter> fst ` set al = {} \<Longrightarrow>
   \<exists>c'. snapshot (map fst al) now acc c = Some (acc @ live_items now al, c') \<and>
        cache_inv c' \<and> capacity c' = capacity c \<and>
        cache c' = filter (\<lambda>(k, n). \<not> (k \<in> fst ` set al \<and> is_expired n now)) (cache c)"
proof (induction al arbitrary: c acc)
  case Nil
  then show ?case by (simp add: live_items_def)
next
  case (Cons a al)
  obtain k n where a: "a = (k, n)" by (cases a)
  have free: "\<not> cache_lock c" "\<not> dll_lock (dll c)"
    and dc: "distinct (map fst (cache c))"
    using Cons.prems(1) by (simp_all add: cache_inv_def)
  have kn: "map_of (cache c) k = Some n" using Cons.prems(3) a by simp
  have knotin: "k \<notin> fst ` set al" using Cons.prems(2) a by (simp add: image_iff)
  have dal: "distinct (map fst al)" using Cons.prems(2) by simp
  show ?case
  proof (cases "is_expired n now")
    case True
    let ?c1 = "c\<lparr>cache := AList.delete k (cache c),
                  dll := (dll c)\<lparr>chain := remove1 k (chain (dll c))\<rparr>\<rparr>"
    have raw: "cache_get_raw k now c = Some (None, ?c1)"
      using kn True by (simp add: cache_get_raw_free[OF free])
    have i1: "cache_inv ?c1" by (rule inv_dropped[OF Cons.prems(1)])
    have rest: "\<forall>(k', n') \<in> set al. map_of (cache ?c1) k' = Some n'"
    proof (clarify)
      fix k' n' assume m: "(k', n') \<in> set al"
      then have "map_of (cache c) k' = Some n'" using Cons.prems(3) by auto
      moreover have "k' \<noteq> k" using knotin m by force
      ultimately show "map_of (cache ?c1) k' = Some n'" by (simp add: delete_conv')
    qed
    have disj: "fst ` set acc \<inter> fst ` set al = {}" using Cons.prems(4) by auto
    from Cons.IH[OF i1 dal rest disj] obtain c' where
      sn: "snapshot (map fst al) now acc ?c1 = Some (acc @ live_items now al, c')"
      and i': "cache_inv c'" and cap: "capacity c' = capacity ?c1"
      and ch: "cache c' = filter (\<lambda>(k, n). \<not> (k \<in> fst ` set al \<and> is_expired n now)) (cache ?c1)"
      by blast
    have li: "live_items now (a # al) = live_items now al"
      using True a by (simp add: live_items_def)
    have "filter (\<lambda>(k, n). \<not> (k \<in> fst ` set al \<and> is_expired n now)) (AList.delete k (cache c)) =
          filter (\<lambda>(k', n'). \<not> (k' \<in> fst ` set (a # al) \<and> is_expired n' now)) (cache c)"
    proof -
      have "filter (\<lambda>(k, n). \<not> (k \<in> fst ` set al \<and> is_expired n now)) (AList.delete k (cache c)) =
            filter (\<lambda>x. (case x of (k', n') \<Rightarrow> \<not> (k' \<in> fst ` set al \<and> is_expired n' now)) \<and>
                         (case x of (k', n') \<Rightarrow> k \<noteq> k')) (cache c)"
        by (simp add: AList.delete_eq conj_commute)
      also have "\<dots> = filter (\<lambda>(k', n'). \<not> (k' \<in> fst ` set (a # al) \<and> is_expired n' now)) (cache c)"
      proof (rule filter_cong[OF refl])
        fix x assume x: "x \<in> set (cache c)"
        obtain k' n' where xx: "x = (k', n')" by (cases x)
        have "k' = k \<Longrightarrow> n' = n"
          using entry_of_distinct[OF dc] x xx kn by fastforce
        then show "((case x of (k', n') \<Rightarrow> \<not> (k' \<in> fst ` set al \<and> is_expired n' now)) \<and>
                    (case x of (k', n') \<Rightarrow> k \<noteq> k')) =
                   (case x of (k', n') \<Rightarrow> \<not> (k' \<in> fst ` set (a # al) \<and> is_expired n' now))"
          using xx a True by auto
      qed
      finally show ?thesis .
    qed
    with ch have ch': "cache c' = filter (\<lambda>(k', n'). \<not> (k' \<in> fst ` set (a # al) \<and> is_expired n' now)) (cache c)"
      by simp
    have "snapshot (map fst (a # al)) now acc c = Some (acc @ live_items now (a # al), c')"
      using raw sn li a by simp
    with i' cap ch' show ?thesis by auto
  next
    case False
    have raw: "cache_get_raw k now c = Some (Some (node_value n, expires_at n), c)"
      using kn False by (simp add: cache_get_raw_free[OF free])
    have kacc: "k \<notin> fst ` set acc" using Cons.prems(4) a by auto
    let ?acc1 = "acc @ [(k, node_value n, expires_at n)]"
    have upd: "AList.update k (node_value n, expires_at n) acc = ?acc1"
      by (rule update_fresh[OF kacc])
    have rest: "\<forall>(k', n') \<in> set al. map_of (cache c) k' = Some n'"
      using Cons.prems(3) by auto
    have disj: "fst ` set ?acc1 \<inter> fst ` set al = {}"
      using Cons.prems(4) knotin by auto
    from Cons.IH[OF Cons.prems(1) dal rest disj] obtain c' where
      sn: "snapshot (map fst al) now ?acc1 c = Some (?acc1 @ live_items now al, c')"
      and i': "cache_inv c'" and cap: "capacity c' = capacity c"
      and ch: "cache c' = filter (\<lambda>(k, n). \<not> (k \<in> fst ` set al \<and> is_expired n now)) (cache c)"
      by blast
    have li: "live_items now (a # al) = (k, node_value n, expires_at n) # live_items now al"
      using False a by (simp add: live_items_def)
    have "filter (\<lambda>(k, n). \<not> (k \<in> fst ` set al \<and> is_expired n now)) (cache c) =
          filter (\<lambda>(k', n'). \<not> (k' \<in> fst ` set (a # al) \<and> is_expired n' now)) (cache c)"
    proof (rule filter_cong[OF refl])
      fix x assume x: "x \<in> set (cache c)"
      obtain k' n' where xx: "x = (k', n')" by (cases x)
      have "k' = k \<Longrightarrow> n' = n"
        using entry_of_distinct[OF dc] x xx kn by fastforce
      then show "(case x of (k, n) \<Rightarrow> \<not> (k \<in> fst ` set al \<and> is_expired n now)) =
                 (case x of (k', n') \<Rightarrow> \<not> (k' \<in> fst ` set (a # al) \<and> is_expired n' now))"
        using xx a False by auto
    qed
    with ch have ch': "cache c' = filter (\<lambda>(k', n'). \<not> (k' \<in> fst ` set (a # al) \<and> is_expired n' now)) (cache c)"
      by simp
    have "snapshot (map fst (a # al)) now acc c = Some (acc @ live_items now (a # al), c')"
      using raw sn li a upd by simp
    with i' cap ch' show ?thesis by auto
  qed
qed

lemma snapshot_all:
  assumes "cache_inv c"
  shows "\<exists>c'. snapshot (map fst (cache c)) now [] c = Some (live_items now (cache c), c') \<and>
          cache_inv c' \<and> capacity c' = capacity c \<and>
          cache c' = filter (\<lambda>(k, n). \<not> is_expired n now) (cache c)"
proof -
  have dc: "distinct (map fst (cache c))" using assms by (simp add: cache_inv_def)
  have all: "\<forall>(k, n) \<in> set (cache c). map_of (cache c) k = Some n"
    using entry_of_distinct[OF dc] by auto
  from snapshot_spec[OF assms dc all, of "[]" now] obtain c' where
    sn: "snapshot (map fst (cache c)) now [] c = Some (live_items now (cache c), c')"
    and i': "cache_inv c'" and cap: "capacity c' = capacity c"
    and ch: "cache c' = filter (\<lambda>(k, n). \<not> (k \<in> fst ` set (cache c) \<and> is_expired n now)) (cache c)"
    by auto
  have "filter (\<lambda>(k, n). \<not> (k \<in> fst ` set (cache c) \<and> is_expired n now)) (cache c) =
        filter (\<lambda>(k, n). \<not> is_expired n now) (cache c)"
    by (rule filter_cong[OF refl]) force
  with sn i' cap ch show ?thesis by auto
qed

lemma keeps_not_expired: "compaction_keeps node now \<Longrightarrow> \<not> is_expired node now"
  by (auto simp: compaction_keeps_def is_expired_def split: option.splits)

lemma compaction_scenario_blocks:
  "run [(0, OpSet ''a'' ''1'' None None), (1, OpSet ''b'' ''2'' None None),
        (2, OpSet ''c'' ''3'' None None), (3, OpSet ''d'' ''4'' None None),
        (4, OpSet ''e'' ''5'' None None)]
       (AsyncKeyValueStore_init 3 None 0) = None"
  by code_simp

text \<open>
  On a store between two operations whose log file exists, \<^verbatim>\<open>compact_log\<close> returns; the
  cache keeps the entries that are not expired, and the log holds one \<^verbatim>\<open>SET\<close> record for
  each of them that has no expiry or at least one whole second left, in the order of the
  dictionary, and no other record.
\<close>

lemma compact_log_effect:
  assumes "store_inv s" and "log_file s \<noteq> None"
  shows "\<exists>s'. compact_log now s = Some ((), s') \<and> store_inv s' \<and>
          cache (store_cache s') =
            filter (\<lambda>(key, node). \<not> is_expired node now) (cache (store_cache s)) \<and>
          log_file s' =
            Some (map (compacted_record now)
                    (filter (\<lambda>(key, node). compaction_keeps node now) (cache (store_cache s')))) \<and>
          (\<forall>entry \<in> set (wal s'). action entry = ''SET'') \<and>
          log_size (stats s') = int (length (wal s'))"
proof -
  let ?c = "store_cache s"
  have u: "\<not> store_lock s" and ci: "cache_inv ?c" and cl: "\<not> cache_lock ?c"
    using assms(1) by (simp_all add: store_inv_def cache_inv_def)
  from snapshot_all[OF ci, of now] obtain c' where
    sn: "snapshot (map fst (cache ?c)) now [] ?c = Some (live_items now (cache ?c), c')"
    and ci': "cache_inv c'"
    and ch: "cache c' = filter (\<lambda>(k, n). \<not> is_expired n now) (cache ?c)"
    by blast
  let ?log = "map (compacted_record now)
                (filter (\<lambda>(key, node). compaction_keeps node now) (cache ?c))"
  let ?s' = "s\<lparr>store_cache := c', log_file := Some ?log,
               stats := (stats s)\<lparr>last_compaction := Some now, log_size := int (length ?log)\<rparr>\<rparr>"
  have run: "compact_log now s = Some ((), ?s')"
    using assms(2) u cl sn
    by (cases s)
       (simp add: compact_log_def with_store_lock_def on_cache_def cache_get_all_keys_free
          compacted_live_items)
  have same: "filter (\<lambda>(key, node). compaction_keeps node now) (cache c') =
              filter (\<lambda>(key, node). compaction_keeps node now) (cache ?c)"
  proof -
    have "filter (\<lambda>(key, node). compaction_keeps node now) (cache c') =
          filter (\<lambda>x. (case x of (key, node) \<Rightarrow> \<not> is_expired node now) \<and>
                       (case x of (key, node) \<Rightarrow> compaction_keeps node now)) (cache ?c)"
      by (simp add: ch conj_commute)
    also have "\<dots> = filter (\<lambda>(key, node). compaction_keeps node now) (cache ?c)"
      by (rule filter_cong[OF refl]) (auto dest: keeps_not_expired)
    finally show ?thesis .
  qed
  have "\<forall>entry \<in> set ?log. action entry = ''SET''"
    by (auto simp: compacted_record_def)
  moreover have "store_inv ?s'" using ci' u by (simp add: store_inv_def)
  ultimately show ?thesis using run ch same
    by (intro exI[of _ ?s']) (simp add: wal_def)
qed

text \<open>
  The record of an entry carries the namespace and the key that \<^verbatim>\<open>_parse_namespaced_key\<close>
  reads off the full key. For the bare key \<^verbatim>\<open>:d\<close> these are the namespace \<^verbatim>\<open>""\<close> and the
  key \<^verbatim>\<open>d\<close>, which replay to the full key \<^verbatim>\<open>d\<close>, as the record of the bare key \<^verbatim>\<open>d\<close>
  does.
\<close>

lemma compaction_reparses_keys:
  "map_option (\<lambda>(r, s'). map (\<lambda>e. (entry_namespace e, entry_key e)) (wal s'))
     (Option.bind
        (run [(0, OpSet ''d'' ''1'' None None), (1, OpSet '':d'' ''2'' None None)]
           (AsyncKeyValueStore_init 3 None 0))
        (compact_log 2)) = Some [(None, ''d''), (Some '''', ''d'')] \<and>
   make_namespaced_key None ''d'' = ''d'' \<and> make_namespaced_key (Some '''') ''d'' = ''d''"
  by code_simp

section \<open>Expiry\<close>

text \<open>
  A \<^verbatim>\<open>set\<close> of a key that is present, with a time to live beyond the floats, raises
  \<^verbatim>\<open>OverflowError\<close>: the entry holds the new value, and the log has no record of it.
\<close>

lemma set_beyond_float_raises:
  "map_option (\<lambda>(r, s'). (r, visible (store_cache s') ''a'' 2, map entry_value (wal s')))
     (Option.bind (run [(0, OpSet ''a'' ''1'' None None)] (AsyncKeyValueStore_init 2 None 0))
        (perform 1 (OpSet ''a'' ''2'' (Some (2 ^ 1024)) None))) =
   Some (Inl OverflowError, Some ''2'', [Some ''1''])"
  by code_simp

text \<open>
  A key set with a TTL other than 0, by a \<^verbatim>\<open>set\<close> that returns, is absent for every
  \<^verbatim>\<open>get\<close> issued strictly more than the TTL after the \<^verbatim>\<open>set\<close>, whatever operations on
  other full keys, reads and deletions come in between.
\<close>

lemma py_float_Inr: "py_float i = Inr t \<Longrightarrow> t = real_of_int i"
  by (simp add: py_float_def split: if_splits)

lemma set_with_ttl_expires:
  assumes "store_inv s" and "ttl \<noteq> 0"
    and "store_set key val (Some ttl) namespace t0 s = Some (Inr (), s1)"
    and "\<forall>(t, opn) \<in> set ops. written_key opn \<noteq> Some (make_namespaced_key namespace key)"
    and "run ops s1 = Some s2"
    and "t0 + real_of_int ttl < now"
  shows "\<exists>s3. store_get key namespace now s2 = Some (None, s3)"
proof -
  let ?fk = "make_namespaced_key namespace key"
  have ci: "cache_inv (store_cache s)" and u: "\<not> store_lock s"
    using assms(1) by (simp_all add: store_inv_def)
  have put: "cache_put ?fk (Some val) (Some (PyInt ttl)) t0 (store_cache s) =
               Some (Inr (), store_cache s1)"
    and u1: "\<not> store_lock s1"
    using store_set_Some[OF u assms(3)] by simp_all
  have i1: "store_inv s1" using cache_inv_put[OF ci put] u1 by (simp add: store_inv_def)
  have i2: "store_inv s2" using store_inv_run[OF i1 assms(5)] by simp
  from cache_put_entry[OF ci put] obtain expires where
    ex: "expiry (Some (PyInt ttl)) t0 = Inr expires"
    and en: "entry_of (store_cache s1) ?fk = Some (Some val, expires)"
    by auto
  from ex assms(2) have "expires = Some (t0 + real_of_int ttl)"
    by (auto simp: expiry_def dest: py_float_Inr split: sum.splits)
  with en have e1: "entry_of (store_cache s1) ?fk = Some (Some val, Some (t0 + real_of_int ttl))"
    by simp
  from run_entry_other[OF i1 assms(5,4)] e1
  have "entry_of (store_cache s2) ?fk = Some (Some val, Some (t0 + real_of_int ttl)) \<or>
        entry_of (store_cache s2) ?fk = None" by simp
  then have "visible (store_cache s2) ?fk now = None"
    using assms(6) by (auto simp: entry_of_def visible_def is_expired_def split: option.splits)
  with store_get_visible[OF i2, of key namespace now] show ?thesis by simp
qed

section \<open>Replay of the log\<close>

text \<open>
  The replay of the records that a run wrote, on an empty cache, follows the run: as
  long as the replay returns, every entry of the run whose expiry, if any, lies after
  the instant of the replay is an entry of the replayed cache. The operations are those
  whose time to live a float can hold, so that no \<^verbatim>\<open>set\<close> raises.
\<close>

lemma in_keys_iff: "k \<in> fst ` set (cache c) \<longleftrightarrow> entry_of c k \<noteq> None"
  by (simp add: entry_of_def map_of_eq_None_iff)

lemma expiry_in_range:
  assumes "case ttl of None \<Rightarrow> True | Some t \<Rightarrow> \<bar>t\<bar> < 2 ^ 1024 - 2 ^ 970"
  shows "expiry (map_option PyInt ttl) now =
           Inr (case ttl of
                  None \<Rightarrow> None
                | Some t \<Rightarrow> if t \<noteq> 0 then Some (now + real_of_int t) else None)"
  using assms by (auto simp: expiry_def py_float_def split: option.splits)

lemma set_in_range_returns:
  assumes "store_inv s" and "ttl_in_range (OpSet key val ttl ns)"
    and "perform t (OpSet key val ttl ns) s = Some (r, s1)"
  shows "store_set key val ttl ns t s = Some (Inr (), s1)"
proof -
  have ci: "cache_inv (store_cache s)" and u: "\<not> store_lock s"
    using assms(1) by (simp_all add: store_inv_def)
  from assms(3) obtain r1 where st: "store_set key val ttl ns t s = Some (r1, s1)"
    by (auto split: option.splits sum.splits)
  have "r1 = Inr ()"
  proof (cases r1)
    case (Inl e)
    with store_set_Some(1)[OF u st] cache_put_raised[OF ci]
    have "expiry (map_option PyInt ttl) t = Inl e" by blast
    with expiry_in_range[of ttl t] assms(2) show ?thesis by simp
  next
    case (Inr x)
    then show ?thesis by simp
  qed
  with st show ?thesis by simp
qed

lemma perform_logged:
  assumes "store_inv s" and "ttl_in_range opn" and "perform now opn s = Some (r, s')"
  shows "log_file s' = (if logged now opn (store_cache s) = [] then log_file s
                        else Some (wal s @ logged now opn (store_cache s)))"
proof -
  have ci: "cache_inv (store_cache s)" and u: "\<not> store_lock s"
    using assms(1) by (simp_all add: store_inv_def)
  show ?thesis
  proof (cases opn)
    case (OpSet key val ttl ns)
    with set_in_range_returns[OF assms(1)] assms(2,3)
    have "store_set key val ttl ns now s = Some (Inr (), s')" by blast
    with OpSet show ?thesis
      by (auto simp: store_set_unlocked[OF u] split: option.splits sum.splits)
  next
    case (OpGet key ns)
    with assms(3) show ?thesis
      by (auto simp: store_get_unlocked[OF u] split: option.splits)
  next
    case (OpDelete key ns)
    from OpDelete assms(3) obtain d where sd: "store_delete key ns now s = Some (d, s')"
      by (auto split: option.splits)
    then have cd: "cache_delete (make_namespaced_key ns key) (store_cache s) = Some (d, store_cache s')"
      using store_delete_Some(1)[OF u] by blast
    have dd: "d = (entry_of (store_cache s) (make_namespaced_key ns key) \<noteq> None)"
      by (rule cache_delete_entry(1)[OF ci cd])
    from sd have "log_file s' =
        (if d then Some (wal s @
                [\<lparr>timestamp = now, action = ''DEL'', entry_key = key, entry_value = None,
                  entry_ttl = None, entry_namespace = ns\<rparr>])
         else log_file s)"
      by (auto simp: store_delete_unlocked[OF u] split: option.splits if_splits)
    with dd OpDelete show ?thesis by simp
  qed
qed

lemma wal_perform:
  assumes "store_inv s" and "ttl_in_range opn" and "perform now opn s = Some (r, s')"
  shows "wal s' = wal s @ logged now opn (store_cache s)"
  using perform_logged[OF assms] by (simp add: wal_def)

lemma wal_run:
  "store_inv s \<Longrightarrow> \<forall>(t, opn) \<in> set ops. ttl_in_range opn \<Longrightarrow> run ops s = Some s' \<Longrightarrow>
   \<exists>es. wal s' = wal s @ es"
proof (induction ops arbitrary: s)
  case Nil
  then show ?case by simp
next
  case (Cons a ops)
  obtain t opn where a: "a = (t, opn)" by (cases a)
  from Cons.prems(3) a obtain r s1 where
    p: "perform t opn s = Some (r, s1)" and rest: "run ops s1 = Some s'"
    by (auto split: option.splits)
  have i1: "store_inv s1" using store_inv_perform[OF Cons.prems(1) p] by simp
  have rng: "ttl_in_range opn" "\<forall>(t, opn) \<in> set ops. ttl_in_range opn"
    using Cons.prems(2) a by simp_all
  from Cons.IH[OF i1 rng(2) rest] obtain es where "wal s' = wal s1 @ es" by blast
  with wal_perform[OF Cons.prems(1) rng(1) p] show ?case by simp
qed

lemma covers_shrink:
  assumes "replay_covers now_r a c"
    and "\<And>k. entry_of a' k = entry_of a k \<or> entry_of a' k = None"
  shows "replay_covers now_r a' c"
  unfolding replay_covers_def
proof (intro allI impI)
  fix k v e
  assume h: "entry_of a' k = Some (v, e) \<and> (\<forall>x. e = Some x \<longrightarrow> now_r < x)"
  with assms(2)[of k] have "entry_of a k = Some (v, e)" by auto
  with h assms(1) show "entry_of c k = Some (v, e)" by (auto simp: replay_covers_def)
qed

lemma replay_set:
  assumes ainv: "cache_inv a" and cinv: "cache_inv c"
    and cov: "replay_covers now_r a c"
    and put: "cache_put fk (Some val) (map_option PyInt ttl) t a = Some (Inr (), a')"
    and rec: "recover_entry now_r
                \<lparr>timestamp = t, action = ''SET'', entry_key = key, entry_value = Some val,
                 entry_ttl = ttl, entry_namespace = ns\<rparr> c = Some (Inr (), c1)"
    and mk: "make_namespaced_key ns key = fk"
  shows "cache_inv c1 \<and> capacity c1 = capacity c \<and> replay_covers now_r a' c1"
proof -
  let ?e = "\<lparr>timestamp = t, action = ''SET'', entry_key = key, entry_value = Some val,
                 entry_ttl = ttl, entry_namespace = ns\<rparr>"
  from cache_put_entry[OF ainv put] obtain ea where
    exa: "expiry (map_option PyInt ttl) t = Inr ea"
    and ea: "\<And>k. entry_of a' k = (if k = fk then Some (Some val, ea) else entry_of a k)"
    by auto
  have other: "\<And>k. k \<noteq> fk \<Longrightarrow> entry_of a' k = entry_of a k" by (simp add: ea)
  have replayed: ?thesis
    if rp: "recover_entry now_r ?e c = cache_put fk (Some val) rt now_r c"
      and ex: "expiry rt now_r = Inr ea" for rt
  proof -
    have p1: "cache_put fk (Some val) rt now_r c = Some (Inr (), c1)" using rp rec by simp
    have i1: "cache_inv c1" "capacity c1 = capacity c" using cache_inv_put[OF cinv p1] by simp_all
    from cache_put_entry[OF cinv p1] ex have
      ec: "\<And>k. entry_of c1 k = (if k = fk then Some (Some val, ea) else entry_of c k)"
      by auto
    have "replay_covers now_r a' c1"
      unfolding replay_covers_def
    proof (intro allI impI)
      fix k v e
      assume h: "entry_of a' k = Some (v, e) \<and> (\<forall>x. e = Some x \<longrightarrow> now_r < x)"
      show "entry_of c1 k = Some (v, e)"
      proof (cases "k = fk")
        case True
        with h ea[of k] ec[of k] show ?thesis by simp
      next
        case False
        with h other[of k] have "entry_of a k = Some (v, e)" by simp
        with h cov have "entry_of c k = Some (v, e)" by (auto simp: replay_covers_def)
        with False ec[of k] show ?thesis by simp
      qed
    qed
    with i1 show ?thesis by simp
  qed
  show ?thesis
  proof (cases "ttl = None \<or> ttl = Some 0")
    case True
    then have "recover_entry now_r ?e c = cache_put fk (Some val) None now_r c"
      by (auto simp: recover_entry_def mk)
    moreover have "expiry None now_r = Inr ea"
      using True exa by (auto simp: expiry_def)
    ultimately show ?thesis by (rule replayed)
  next
    case False
    then obtain x where x: "ttl = Some x" "x \<noteq> 0" by (cases ttl) auto
    from exa x have pf: "py_float x = Inr (real_of_int x)" and eav: "ea = Some (t + real_of_int x)"
      by (auto simp: expiry_def py_float_def split: sum.splits if_splits)
    let ?rem = "real_of_int x - (now_r - t)"
    show ?thesis
    proof (cases "?rem \<le> 0")
      case True
      then have skip: "recover_entry now_r ?e c = Some (Inr (), c)"
        using x pf by (simp add: recover_entry_def Let_def)
      with rec have c1: "c1 = c" by simp
      have "replay_covers now_r a' c"
        unfolding replay_covers_def
      proof (intro allI impI)
        fix k v e
        assume h: "entry_of a' k = Some (v, e) \<and> (\<forall>x. e = Some x \<longrightarrow> now_r < x)"
        have "k \<noteq> fk"
        proof
          assume "k = fk"
          with h ea[of k] eav have "now_r < t + real_of_int x" by auto
          with True show False by simp
        qed
        with h other[of k] have "entry_of a k = Some (v, e)" by simp
        with h cov show "entry_of c k = Some (v, e)" by (auto simp: replay_covers_def)
      qed
      with c1 cinv show ?thesis by simp
    next
      case False
      then have "recover_entry now_r ?e c =
                   cache_put fk (Some val) (Some (PyFloat ?rem)) now_r c"
        using x pf by (simp add: recover_entry_def Let_def mk)
      moreover have "expiry (Some (PyFloat ?rem)) now_r = Inr ea"
        using False eav by (simp add: expiry_def)
      ultimately show ?thesis by (rule replayed)
    qed
  qed
qed

lemma replay_del:
  assumes ainv: "cache_inv a" and cinv: "cache_inv c"
    and cov: "replay_covers now_r a c"
    and del: "cache_delete fk a = Some (d, a')"
    and rec: "recover_entry now_r
                \<lparr>timestamp = t, action = ''DEL'', entry_key = key, entry_value = None,
                 entry_ttl = None, entry_namespace = ns\<rparr> c = Some (Inr (), c1)"
    and mk: "make_namespaced_key ns key = fk"
  shows "cache_inv c1 \<and> capacity c1 = capacity c \<and> replay_covers now_r a' c1"
proof -
  from rec obtain r where d1: "cache_delete fk c = Some (r, c1)"
    by (auto simp: recover_entry_def mk split: option.splits)
  have i1: "cache_inv c1" "capacity c1 = capacity c" using cache_inv_delete[OF cinv d1] by simp_all
  have ea: "entry_of a' k = (if k = fk then None else entry_of a k)" for k
    by (rule cache_delete_entry(2)[OF ainv del])
  have ec: "entry_of c1 k = (if k = fk then None else entry_of c k)" for k
    by (rule cache_delete_entry(2)[OF cinv d1])
  have "replay_covers now_r a' c1"
    using cov ea ec by (auto simp: replay_covers_def split: if_splits)
  then show ?thesis using i1 by simp
qed

lemma recover_entries_append:
  "recover_entries now (es1 @ es2) c =
     (case recover_entries now es1 c of
        None \<Rightarrow> None
      | Some (Inl e, c1) \<Rightarrow> Some (Inl e, c1)
      | Some (Inr u, c1) \<Rightarrow> recover_entries now es2 c1)"
  by (induction es1 arbitrary: c) (auto split: option.splits sum.splits)

lemma recover_entries_single:
  "recover_entries now [e] c = Some (Inr (), c1) \<longleftrightarrow> recover_entry now e c = Some (Inr (), c1)"
  by (auto split: option.splits sum.splits)

lemma sim_step:
  assumes inv: "store_inv s" and cinv: "cache_inv c"
    and cov: "replay_covers now_r (store_cache s) c"
    and rng: "ttl_in_range opn"
    and p: "perform t opn s = Some (r, s1)"
    and rec: "recover_entries now_r (logged t opn (store_cache s)) c = Some (Inr (), c1)"
  shows "cache_inv c1 \<and> capacity c1 = capacity c \<and> replay_covers now_r (store_cache s1) c1"
proof -
  let ?a = "store_cache s"
  have ainv: "cache_inv ?a" and u: "\<not> store_lock s"
    using inv by (simp_all add: store_inv_def)
  show ?thesis
  proof (cases opn)
    case (OpSet key val ttl ns)
    let ?fk = "make_namespaced_key ns key"
    from set_in_range_returns[OF inv] rng p OpSet
    have "store_set key val ttl ns t s = Some (Inr (), s1)" by blast
    from store_set_Some(1)[OF u this]
    have put: "cache_put ?fk (Some val) (map_option PyInt ttl) t ?a = Some (Inr (), store_cache s1)" .
    from rec OpSet have
      "recover_entry now_r
         \<lparr>timestamp = t, action = ''SET'', entry_key = key, entry_value = Some val,
          entry_ttl = ttl, entry_namespace = ns\<rparr> c = Some (Inr (), c1)"
      by (simp only: logged.simps recover_entries_single)
    from replay_set[OF ainv cinv cov put this refl] show ?thesis .
  next
    case (OpGet key ns)
    let ?fk = "make_namespaced_key ns key"
    from p OpGet obtain v where "store_get key ns t s = Some (v, s1)"
      by (auto split: option.splits)
    from store_get_Some(1)[OF u this]
    have get: "cache_get ?fk t ?a = Some (v, store_cache s1)" .
    have "replay_covers now_r (store_cache s1) c"
      by (rule covers_shrink[OF cov]) (simp add: cache_get_entry(2)[OF ainv get])
    moreover have "c1 = c" using rec OpGet by simp
    ultimately show ?thesis using cinv by simp
  next
    case (OpDelete key ns)
    let ?fk = "make_namespaced_key ns key"
    from p OpDelete obtain d where "store_delete key ns t s = Some (d, s1)"
      by (auto split: option.splits)
    from store_delete_Some(1)[OF u this]
    have del: "cache_delete ?fk ?a = Some (d, store_cache s1)" .
    have dd: "d = (entry_of ?a ?fk \<noteq> None)" by (rule cache_delete_entry(1)[OF ainv del])
    show ?thesis
    proof (cases d)
      case True
      with rec OpDelete dd have
        "recover_entry now_r
           \<lparr>timestamp = t, action = ''DEL'', entry_key = key, entry_value = None,
            entry_ttl = None, entry_namespace = ns\<rparr> c = Some (Inr (), c1)"
        by (simp add: recover_entries_single del: recover_entries.simps)
      from replay_del[OF ainv cinv cov del this refl] show ?thesis .
    next
      case False
      have "replay_covers now_r (store_cache s1) c"
        by (rule covers_shrink[OF cov]) (simp add: cache_delete_entry(2)[OF ainv del])
      moreover have "c1 = c" using rec OpDelete False dd by simp
      ultimately show ?thesis using cinv by simp
    qed
  qed
qed

lemma sim_run:
  "store_inv s \<Longrightarrow> cache_inv c \<Longrightarrow> replay_covers now_r (store_cache s) c \<Longrightarrow>
   \<forall>(t, opn) \<in> set ops. ttl_in_range opn \<Longrightarrow>
   run ops s = Some s' \<Longrightarrow> wal s' = wal s @ es \<Longrightarrow>
   recover_entries now_r es c = Some (Inr (), c') \<Longrightarrow>
   cache_inv c' \<and> capacity c' = capacity c \<and> replay_covers now_r (store_cache s') c'"
proof (induction ops arbitrary: s c es)
  case Nil
  then show ?case by simp
next
  case (Cons a ops)
  obtain t opn where a: "a = (t, opn)" by (cases a)
  from Cons.prems(5) a obtain r s1 where
    p: "perform t opn s = Some (r, s1)" and rest: "run ops s1 = Some s'"
    by (auto split: option.splits)
  have rng: "ttl_in_range opn" "\<forall>(t, opn) \<in> set ops. ttl_in_range opn"
    using Cons.prems(4) a by simp_all
  have i1: "store_inv s1" using store_inv_perform[OF Cons.prems(1) p] by simp
  let ?L = "logged t opn (store_cache s)"
  have w1: "wal s1 = wal s @ ?L" by (rule wal_perform[OF Cons.prems(1) rng(1) p])
  from wal_run[OF i1 rng(2) rest] obtain es1 where w2: "wal s' = wal s1 @ es1" by blast
  have es: "es = ?L @ es1" using Cons.prems(6) w1 w2 by simp
  from Cons.prems(7) obtain c1 where
    rc: "recover_entries now_r ?L c = Some (Inr (), c1)"
    and re: "recover_entries now_r es1 c1 = Some (Inr (), c')"
    unfolding es recover_entries_append by (auto split: option.splits sum.splits)
  from sim_step[OF Cons.prems(1,2,3) rng(1) p rc]
  have s1: "cache_inv c1" "capacity c1 = capacity c" "replay_covers now_r (store_cache s1) c1"
    by simp_all
  from Cons.IH[OF i1 s1(1,3) rng(2) rest w2 re] s1(2) show ?case by simp
qed

lemma run_last_set:
  "store_inv s \<Longrightarrow> \<forall>(t, opn) \<in> set ops. ttl_in_range opn \<Longrightarrow> run ops s = Some s' \<Longrightarrow>
   entry_of (store_cache s') fk = Some (v, e) \<Longrightarrow>
   (case last_set fk ops of
      None \<Rightarrow> entry_of (store_cache s) fk = Some (v, e)
    | Some w \<Rightarrow> v = Some w)"
proof (induction ops arbitrary: s)
  case Nil
  then show ?case by simp
next
  case (Cons a ops)
  obtain t opn where a: "a = (t, opn)" by (cases a)
  from Cons.prems(3) a obtain r s1 where
    p: "perform t opn s = Some (r, s1)" and rest: "run ops s1 = Some s'"
    by (auto split: option.splits)
  have rng: "ttl_in_range opn" "\<forall>(t, opn) \<in> set ops. ttl_in_range opn"
    using Cons.prems(2) a by simp_all
  have i1: "store_inv s1" using store_inv_perform[OF Cons.prems(1) p] by simp
  note ih = Cons.IH[OF i1 rng(2) rest Cons.prems(4)]
  show ?case
  proof (cases "last_set fk ops")
    case (Some w)
    with ih a show ?thesis by simp
  next
    case None
    with ih have e1: "entry_of (store_cache s1) fk = Some (v, e)" by simp
    show ?thesis
    proof (cases "written_key opn = Some fk")
      case True
      then obtain key val ttl ns where o: "opn = OpSet key val ttl ns"
        and fk: "fk = make_namespaced_key ns key"
        by (cases opn) auto
      have ci: "cache_inv (store_cache s)" and u: "\<not> store_lock s"
        using Cons.prems(1) by (simp_all add: store_inv_def)
      from set_in_range_returns[OF Cons.prems(1)] rng(1) p o
      have "store_set key val ttl ns t s = Some (Inr (), s1)" by blast
      then have "cache_put fk (Some val) (map_option PyInt ttl) t (store_cache s) =
                   Some (Inr (), store_cache s1)"
        using store_set_Some(1)[OF u] fk by blast
      from cache_put_entry[OF ci this] e1 have "v = Some val" by auto
      with None True o a show ?thesis by simp
    next
      case False
      from perform_entry_other[OF Cons.prems(1) p False] e1
      have "entry_of (store_cache s) fk = Some (v, e)" by auto
      with None False a show ?thesis by simp
    qed
  qed
qed

text \<open>
  When the run and the restart both return, every key that a read after the restart
  instant would have found before the shutdown is found after the restart, with the
  value of the last \<^verbatim>\<open>set\<close> of the run on its full key.
\<close>

lemma round_trip_when_restart_returns:
  assumes rng: "\<forall>(t, opn) \<in> set ops. ttl_in_range opn"
    and r: "run ops (AsyncKeyValueStore_init cap None t0) = Some s"
    and ro: "reopen cap_r now_r s = Some (Inr (), s')"
    and later: "now_r < now_g"
    and g: "store_get key namespace now_g s = Some (Some v, s1)"
  shows "last_set (make_namespaced_key namespace key) ops = Some v \<and>
         (\<exists>s2. store_get key namespace now_g s' = Some (Some v, s2))"
proof -
  let ?s0 = "AsyncKeyValueStore_init cap None t0"
  let ?c0 = "AsyncLRUCache_init cap_r"
  let ?sr = "AsyncKeyValueStore_init cap_r (log_file s) now_r"
  let ?fk = "make_namespaced_key namespace key"
  have e0: "entry_of (store_cache ?s0) k = None" for k
    by (simp add: entry_of_def AsyncKeyValueStore_init_def AsyncLRUCache_init_def)
  have cov0: "replay_covers now_r (store_cache ?s0) ?c0"
    by (simp add: replay_covers_def e0)
  have w0: "wal s = wal ?s0 @ wal s" by (simp add: wal_def AsyncKeyValueStore_init_def)
  have inv: "store_inv s" using store_inv_run[OF store_inv_init r] by simp
  have re: "recover_entries now_r (wal s) ?c0 = Some (Inr (), store_cache s')"
    and u': "\<not> store_lock s'"
    using ro
    by (auto simp: reopen_def initialize_def recover_def on_cache_def wal_def
          AsyncKeyValueStore_init_def split: option.splits)
  from sim_run[OF store_inv_init cache_inv_init cov0 rng r w0 re]
  have cinv: "cache_inv (store_cache s')" and cov: "replay_covers now_r (store_cache s) (store_cache s')"
    by simp_all
  have inv': "store_inv s'" using cinv u' by (simp add: store_inv_def)
  from store_get_visible[OF inv, of key namespace now_g] g
  have vis: "visible (store_cache s) ?fk now_g = Some v" by simp
  then obtain node where n: "map_of (cache (store_cache s)) ?fk = Some node"
    and live: "\<not> is_expired node now_g" and val: "node_value node = Some v"
    by (auto simp: visible_def split: option.splits if_splits)
  have ent: "entry_of (store_cache s) ?fk = Some (Some v, expires_at node)"
    using n val by (simp add: entry_of_def)
  have "\<forall>x. expires_at node = Some x \<longrightarrow> now_r < x"
    using live later by (auto simp: is_expired_def)
  with ent cov have "entry_of (store_cache s') ?fk = Some (Some v, expires_at node)"
    by (auto simp: replay_covers_def)
  with ent have "entry_of (store_cache s') ?fk = entry_of (store_cache s) ?fk" by simp
  then have "visible (store_cache s') ?fk now_g = Some v"
    using vis visible_cong by metis
  with store_get_visible[OF inv', of key namespace now_g]
  have "\<exists>s2. store_get key namespace now_g s' = Some (Some v, s2)" by simp
  moreover have "last_set ?fk ops = Some v"
    using run_last_set[OF store_inv_init rng r ent] e0 by (simp split: option.splits)
  ultimately show ?thesis by simp
qed

text \<open>
  Neither the run nor the replay has to evict when the full keys written to are at most
  \<open>capacity\<close>: the keys of both caches stay within a finite set \<open>K\<close> of that size.
\<close>

lemma cache_put_room:
  assumes inv: "cache_inv c" and fin: "finite K" and sub: "fst ` set (cache c) \<subseteq> K"
    and k: "k \<in> K" and cap: "int (card K) \<le> capacity c"
  shows "\<exists>r c'. cache_put k v ttl now c = Some (r, c') \<and> (\<forall>e. r = Inl e \<longrightarrow> expiry ttl now = Inl e)"
proof -
  have free: "\<not> cache_lock c" "\<not> dll_lock (dll c)" and d: "distinct (map fst (cache c))"
    using inv by (simp_all add: cache_inv_def)
  show ?thesis
  proof (cases "map_of (cache c) k")
    case None
    then have "k \<notin> fst ` set (cache c)" by (rule map_of_notin_keys)
    with sub k have "fst ` set (cache c) \<subseteq> K - {k}" by auto
    then have "card (fst ` set (cache c)) \<le> card (K - {k})"
      using fin by (simp add: card_mono)
    also have "\<dots> < card K" using fin k by (rule card_Diff1_less)
    finally have "card (fst ` set (cache c)) < card K" .
    moreover have "card (fst ` set (cache c)) = length (cache c)"
      using distinct_card[OF d] by simp
    ultimately have "int (length (cache c)) < capacity c" using cap by simp
    with None show ?thesis
      by (cases "expiry ttl now") (simp_all add: cache_put_free[OF free])
  next
    case (Some node)
    then show ?thesis
      by (cases "expiry ttl now") (simp_all add: cache_put_free[OF free])
  qed
qed

lemma cache_get_returns:
  assumes "cache_inv c"
  shows "\<exists>r c'. cache_get k now c = Some (r, c')"
proof -
  have free: "\<not> cache_lock c" "\<not> dll_lock (dll c)" using assms by (simp_all add: cache_inv_def)
  show ?thesis
    by (cases "map_of (cache c) k") (simp_all add: cache_get_free[OF free])
qed

lemma cache_delete_returns:
  assumes "cache_inv c"
  shows "\<exists>r c'. cache_delete k c = Some (r, c')"
proof -
  have free: "\<not> cache_lock c" "\<not> dll_lock (dll c)" using assms by (simp_all add: cache_inv_def)
  show ?thesis
    by (cases "map_of (cache c) k") (auto simp: cache_delete_free[OF free])
qed

lemma put_keys:
  assumes "cache_inv c" and "cache_put k v ttl now c = Some (r, c')"
    and "fst ` set (cache c) \<subseteq> K" and "k \<in> K"
  shows "fst ` set (cache c') \<subseteq> K"
proof
  fix x assume x: "x \<in> fst ` set (cache c')"
  show "x \<in> K"
  proof (cases "x = k")
    case True
    then show ?thesis using assms(4) by simp
  next
    case False
    from x have "entry_of c' x \<noteq> None" by (simp add: in_keys_iff)
    then have "entry_of c x \<noteq> None" using cache_put_other[OF assms(1,2) False] by simp
    then have "x \<in> fst ` set (cache c)" by (simp add: in_keys_iff)
    then show ?thesis using assms(3) by blast
  qed
qed

lemma get_keys:
  assumes "cache_inv c" and "cache_get k now c = Some (r, c')"
    and "fst ` set (cache c) \<subseteq> K"
  shows "fst ` set (cache c') \<subseteq> K"
proof
  fix x assume "x \<in> fst ` set (cache c')"
  then have "entry_of c' x \<noteq> None" by (simp add: in_keys_iff)
  then have "entry_of c x \<noteq> None"
    using cache_get_entry(2)[OF assms(1,2), of x] by (auto split: if_splits)
  then have "x \<in> fst ` set (cache c)" by (simp add: in_keys_iff)
  then show "x \<in> K" using assms(3) by blast
qed

lemma delete_keys:
  assumes "cache_inv c" and "cache_delete k c = Some (r, c')"
    and "fst ` set (cache c) \<subseteq> K"
  shows "fst ` set (cache c') \<subseteq> K"
proof
  fix x assume "x \<in> fst ` set (cache c')"
  then have "entry_of c' x \<noteq> None" by (simp add: in_keys_iff)
  then have "entry_of c x \<noteq> None"
    using cache_delete_entry(2)[OF assms(1,2), of x] by (auto split: if_splits)
  then have "x \<in> fst ` set (cache c)" by (simp add: in_keys_iff)
  then show "x \<in> K" using assms(3) by blast
qed

lemma written_keys_Cons:
  "set (written_keys ((t, opn) # ops)) =
     (case written_key opn of None \<Rightarrow> {} | Some k \<Rightarrow> {k}) \<union> set (written_keys ops)"
  by (simp add: written_keys_def List.map_filter_simps split: option.splits)

lemma perform_room:
  assumes inv: "store_inv s" and fin: "finite K"
    and cap: "int (card K) \<le> capacity (store_cache s)"
    and ks: "fst ` set (cache (store_cache s)) \<subseteq> K"
    and wk: "\<And>k. written_key opn = Some k \<Longrightarrow> k \<in> K"
  shows "\<exists>r s1. perform t opn s = Some (r, s1) \<and> fst ` set (cache (store_cache s1)) \<subseteq> K"
proof -
  let ?a = "store_cache s"
  have ainv: "cache_inv ?a" and u: "\<not> store_lock s"
    using inv by (simp_all add: store_inv_def)
  show ?thesis
  proof (cases opn)
    case (OpSet key val ttl ns)
    let ?fk = "make_namespaced_key ns key"
    have fk: "?fk \<in> K" using wk OpSet by simp
    from cache_put_room[OF ainv fin ks fk cap] obtain r a' where
      put: "cache_put ?fk (Some val) (map_option PyInt ttl) t ?a = Some (r, a')" by blast
    then obtain r1 s1 where p: "perform t opn s = Some (r1, s1)"
      using OpSet by (cases r) (simp_all add: store_set_unlocked[OF u])
    then obtain r2 where "store_set key val ttl ns t s = Some (r2, s1)"
      using OpSet by (auto split: option.splits sum.splits)
    from store_set_Some(1)[OF u this] put have a': "store_cache s1 = a'" by simp
    have "fst ` set (cache (store_cache s1)) \<subseteq> K"
      using put_keys[OF ainv put ks fk] a' by simp
    with p show ?thesis by blast
  next
    case (OpGet key ns)
    let ?fk = "make_namespaced_key ns key"
    from cache_get_returns[OF ainv] obtain v a' where
      get: "cache_get ?fk t ?a = Some (v, a')" by blast
    then obtain s1 where p: "perform t opn s = Some (Inr (Found v), s1)"
      using OpGet by (simp add: store_get_unlocked[OF u])
    then have "store_get key ns t s = Some (v, s1)"
      using OpGet by (auto split: option.splits)
    from store_get_Some(1)[OF u this] get have a': "store_cache s1 = a'" by simp
    have "fst ` set (cache (store_cache s1)) \<subseteq> K"
      using get_keys[OF ainv get ks] a' by simp
    with p show ?thesis by blast
  next
    case (OpDelete key ns)
    let ?fk = "make_namespaced_key ns key"
    from cache_delete_returns[OF ainv] obtain d a' where
      del: "cache_delete ?fk ?a = Some (d, a')" by blast
    then obtain s1 where p: "perform t opn s = Some (Inr (Deleted d), s1)"
      using OpDelete by (cases d) (simp_all add: store_delete_unlocked[OF u])
    then have "store_delete key ns t s = Some (d, s1)"
      using OpDelete by (auto split: option.splits)
    from store_delete_Some(1)[OF u this] del have a': "store_cache s1 = a'" by simp
    have "fst ` set (cache (store_cache s1)) \<subseteq> K"
      using delete_keys[OF ainv del ks] a' by simp
    with p show ?thesis by blast
  qed
qed

lemma run_room:
  "store_inv s \<Longrightarrow> finite K \<Longrightarrow> int (card K) \<le> capacity (store_cache s) \<Longrightarrow>
   fst ` set (cache (store_cache s)) \<subseteq> K \<Longrightarrow> set (written_keys ops) \<subseteq> K \<Longrightarrow>
   \<exists>s'. run ops s = Some s'"
proof (induction ops arbitrary: s)
  case Nil
  then show ?case by simp
next
  case (Cons a ops)
  obtain t opn where a: "a = (t, opn)" by (cases a)
  have wk: "\<And>k. written_key opn = Some k \<Longrightarrow> k \<in> K"
    using Cons.prems(5) by (auto simp: a written_keys_Cons)
  have wr: "set (written_keys ops) \<subseteq> K"
    using Cons.prems(5) by (auto simp: a written_keys_Cons)
  from perform_room[OF Cons.prems(1,2,3,4) wk, of opn t] obtain r s1 where
    p: "perform t opn s = Some (r, s1)" and k1: "fst ` set (cache (store_cache s1)) \<subseteq> K"
    by blast
  have i1: "store_inv s1" "capacity (store_cache s1) = capacity (store_cache s)"
    using store_inv_perform[OF Cons.prems(1) p] by simp_all
  from Cons.IH[OF i1(1) Cons.prems(2) _ k1 wr] Cons.prems(3) i1(2)
  obtain s' where "run ops s1 = Some s'" by auto
  with p a show ?case by simp
qed

lemma recover_entry_room:
  assumes cinv: "cache_inv c" and fin: "finite K" and cap: "int (card K) \<le> capacity c"
    and kc: "fst ` set (cache c) \<subseteq> K"
    and ok: "action e = ''SET'' \<longrightarrow>
               make_namespaced_key (entry_namespace e) (entry_key e) \<in> K \<and>
               (case entry_ttl e of None \<Rightarrow> True | Some t \<Rightarrow> \<bar>t\<bar> < 2 ^ 1024 - 2 ^ 970)"
  shows "\<exists>c1. recover_entry now e c = Some (Inr (), c1) \<and> cache_inv c1 \<and>
              capacity c1 = capacity c \<and> fst ` set (cache c1) \<subseteq> K"
proof -
  let ?fk = "make_namespaced_key (entry_namespace e) (entry_key e)"
  have put: "\<exists>c1. cache_put ?fk (entry_value e) rt now c = Some (Inr (), c1) \<and> cache_inv c1 \<and>
              capacity c1 = capacity c \<and> fst ` set (cache c1) \<subseteq> K"
    if set: "action e = ''SET''" and ex: "\<And>x. expiry rt now \<noteq> Inl x" for rt
  proof -
    have fk: "?fk \<in> K" using ok set by simp
    from cache_put_room[OF cinv fin kc fk cap, of "entry_value e" rt now] ex obtain r c1 where
      p: "cache_put ?fk (entry_value e) rt now c = Some (r, c1)" and "\<forall>x. r \<noteq> Inl x"
      by blast
    then have "r = Inr ()" by (cases r) simp_all
    with p cache_inv_put[OF cinv p] put_keys[OF cinv p kc fk] show ?thesis by simp
  qed
  show ?thesis
  proof (cases "action e = ''SET''")
    case True
    show ?thesis
    proof (cases "entry_ttl e = None \<or> entry_ttl e = Some 0")
      case z: True
      have "recover_entry now e c = cache_put ?fk (entry_value e) None now c"
        using True z by (auto simp: recover_entry_def)
      with put[OF True, of None] show ?thesis by (simp add: expiry_def)
    next
      case False
      then obtain x where x: "entry_ttl e = Some x" "x \<noteq> 0" by (cases "entry_ttl e") auto
      have pf: "py_float x = Inr (real_of_int x)"
        using ok True x by (simp add: py_float_def)
      let ?rem = "real_of_int x - (now - timestamp e)"
      show ?thesis
      proof (cases "?rem \<le> 0")
        case t: True
        have "recover_entry now e c = Some (Inr (), c)"
          using True x pf t by (simp add: recover_entry_def Let_def)
        with cinv kc show ?thesis by simp
      next
        case f: False
        have "recover_entry now e c = cache_put ?fk (entry_value e) (Some (PyFloat ?rem)) now c"
          using True x pf f by (simp add: recover_entry_def Let_def)
        with put[OF True, of "Some (PyFloat ?rem)"] show ?thesis by (simp add: expiry_def)
      qed
    qed
  next
    case False
    show ?thesis
    proof (cases "action e = ''DEL''")
      case True
      from cache_delete_returns[OF cinv] obtain r c1 where
        d1: "cache_delete ?fk c = Some (r, c1)" by blast
      have "recover_entry now e c = Some (Inr (), c1)"
        using False True d1 by (simp add: recover_entry_def)
      with cache_inv_delete[OF cinv d1] delete_keys[OF cinv d1 kc] show ?thesis by simp
    next
      case d: False
      have "recover_entry now e c = Some (Inr (), c)"
        using False d by (simp add: recover_entry_def)
      with cinv kc show ?thesis by simp
    qed
  qed
qed

lemma recover_entries_room:
  "cache_inv c \<Longrightarrow> finite K \<Longrightarrow> int (card K) \<le> capacity c \<Longrightarrow> fst ` set (cache c) \<subseteq> K \<Longrightarrow>
   \<forall>e \<in> set es. action e = ''SET'' \<longrightarrow>
      make_namespaced_key (entry_namespace e) (entry_key e) \<in> K \<and>
      (case entry_ttl e of None \<Rightarrow> True | Some t \<Rightarrow> \<bar>t\<bar> < 2 ^ 1024 - 2 ^ 970) \<Longrightarrow>
   \<exists>c'. recover_entries now es c = Some (Inr (), c')"
proof (induction es arbitrary: c)
  case Nil
  then show ?case by simp
next
  case (Cons e es)
  have ok: "action e = ''SET'' \<longrightarrow>
               make_namespaced_key (entry_namespace e) (entry_key e) \<in> K \<and>
               (case entry_ttl e of None \<Rightarrow> True | Some t \<Rightarrow> \<bar>t\<bar> < 2 ^ 1024 - 2 ^ 970)"
    using Cons.prems(5) by simp
  from recover_entry_room[OF Cons.prems(1,2,3,4) ok, of now] obtain c1 where
    r1: "recover_entry now e c = Some (Inr (), c1)" and i1: "cache_inv c1"
    and c1: "capacity c1 = capacity c" and k1: "fst ` set (cache c1) \<subseteq> K"
    by blast
  have rest: "\<forall>e \<in> set es. action e = ''SET'' \<longrightarrow>
      make_namespaced_key (entry_namespace e) (entry_key e) \<in> K \<and>
      (case entry_ttl e of None \<Rightarrow> True | Some t \<Rightarrow> \<bar>t\<bar> < 2 ^ 1024 - 2 ^ 970)"
    using Cons.prems(5) by simp
  from Cons.IH[OF i1 Cons.prems(2) _ k1 rest] Cons.prems(3) c1
  obtain c' where "recover_entries now es c1 = Some (Inr (), c')" by auto
  with r1 show ?case by simp
qed

lemma wal_run_records:
  "store_inv s \<Longrightarrow> \<forall>(t, opn) \<in> set ops. ttl_in_range opn \<Longrightarrow> run ops s = Some s' \<Longrightarrow>
   \<exists>es. wal s' = wal s @ es \<and>
     (\<forall>e \<in> set es. action e = ''SET'' \<longrightarrow>
        make_namespaced_key (entry_namespace e) (entry_key e) \<in> set (written_keys ops) \<and>
        (case entry_ttl e of None \<Rightarrow> True | Some t \<Rightarrow> \<bar>t\<bar> < 2 ^ 1024 - 2 ^ 970))"
proof (induction ops arbitrary: s)
  case Nil
  then show ?case by simp
next
  case (Cons a ops)
  obtain t opn where a: "a = (t, opn)" by (cases a)
  from Cons.prems(3) a obtain r s1 where
    p: "perform t opn s = Some (r, s1)" and rest: "run ops s1 = Some s'"
    by (auto split: option.splits)
  have i1: "store_inv s1" using store_inv_perform[OF Cons.prems(1) p] by simp
  have rng: "ttl_in_range opn" "\<forall>(t, opn) \<in> set ops. ttl_in_range opn"
    using Cons.prems(2) a by simp_all
  let ?L = "logged t opn (store_cache s)"
  have w1: "wal s1 = wal s @ ?L" by (rule wal_perform[OF Cons.prems(1) rng(1) p])
  have l: "\<forall>e \<in> set ?L. action e = ''SET'' \<longrightarrow>
        make_namespaced_key (entry_namespace e) (entry_key e) \<in> set (written_keys (a # ops)) \<and>
        (case entry_ttl e of None \<Rightarrow> True | Some t \<Rightarrow> \<bar>t\<bar> < 2 ^ 1024 - 2 ^ 970)"
    using rng(1) by (cases opn) (auto simp: a written_keys_Cons)
  from Cons.IH[OF i1 rng(2) rest] obtain es where
    w2: "wal s' = wal s1 @ es"
    and e2: "\<forall>e \<in> set es. action e = ''SET'' \<longrightarrow>
        make_namespaced_key (entry_namespace e) (entry_key e) \<in> set (written_keys ops) \<and>
        (case entry_ttl e of None \<Rightarrow> True | Some t \<Rightarrow> \<bar>t\<bar> < 2 ^ 1024 - 2 ^ 970)"
    by blast
  have sub: "set (written_keys ops) \<subseteq> set (written_keys (a # ops))"
    by (auto simp: a written_keys_Cons)
  have "wal s' = wal s @ (?L @ es)" using w1 w2 by simp
  moreover have "\<forall>e \<in> set (?L @ es). action e = ''SET'' \<longrightarrow>
        make_namespaced_key (entry_namespace e) (entry_key e) \<in> set (written_keys (a # ops)) \<and>
        (case entry_ttl e of None \<Rightarrow> True | Some t \<Rightarrow> \<bar>t\<bar> < 2 ^ 1024 - 2 ^ 970)"
    using l e2 sub by auto
  ultimately show ?case by blast
qed

text \<open>
  A sequence of operations that writes to at most \<open>capacity\<close> distinct full keys, with
  every time to live in the range of the floats: the run returns, the restart returns,
  and the round trip holds.
\<close>

lemma round_trip_without_eviction:
  assumes rng: "\<forall>(t, opn) \<in> set ops. ttl_in_range opn"
    and few: "int (card (set (written_keys ops))) \<le> cap" and later: "now_r < now_g"
  shows "\<exists>s s'. run ops (AsyncKeyValueStore_init cap None t0) = Some s \<and>
            reopen cap now_r s = Some (Inr (), s') \<and>
            (\<forall>key namespace v s1.
               store_get key namespace now_g s = Some (Some v, s1) \<longrightarrow>
               last_set (make_namespaced_key namespace key) ops = Some v \<and>
               (\<exists>s2. store_get key namespace now_g s' = Some (Some v, s2)))"
proof -
  let ?K = "set (written_keys ops)"
  let ?s0 = "AsyncKeyValueStore_init cap None t0"
  let ?c0 = "AsyncLRUCache_init cap"
  have sc0: "store_cache ?s0 = ?c0" by (simp add: AsyncKeyValueStore_init_def)
  have cap0: "capacity ?c0 = cap" and empty0: "cache ?c0 = []"
    by (simp_all add: AsyncLRUCache_init_def)
  have w0: "wal ?s0 = []" by (simp add: wal_def AsyncKeyValueStore_init_def)
  have "\<exists>s. run ops ?s0 = Some s"
    by (rule run_room[where K = ?K]) (simp_all add: store_inv_init sc0 cap0 empty0 few)
  then obtain s where r: "run ops ?s0 = Some s" by blast
  from wal_run_records[OF store_inv_init rng r] have
    recs: "\<forall>e \<in> set (wal s). action e = ''SET'' \<longrightarrow>
        make_namespaced_key (entry_namespace e) (entry_key e) \<in> ?K \<and>
        (case entry_ttl e of None \<Rightarrow> True | Some t \<Rightarrow> \<bar>t\<bar> < 2 ^ 1024 - 2 ^ 970)"
    by (auto simp: w0)
  have "\<exists>c'. recover_entries now_r (wal s) ?c0 = Some (Inr (), c')"
    by (rule recover_entries_room[where K = ?K])
       (simp_all add: cache_inv_init cap0 empty0 few recs)
  then obtain c' where re: "recover_entries now_r (wal s) ?c0 = Some (Inr (), c')" by blast
  let ?sr = "AsyncKeyValueStore_init cap (log_file s) now_r"
  have ro: "reopen cap now_r s = Some (Inr (), ?sr\<lparr>store_cache := c'\<rparr>)"
  proof (cases "log_file s")
    case None
    then have "wal s = []" by (simp add: wal_def)
    with re have "c' = ?c0" by simp
    then have "?sr\<lparr>store_cache := c'\<rparr> = ?sr" by (simp add: AsyncKeyValueStore_init_def)
    then show ?thesis
      using None by (simp add: reopen_def initialize_def recover_def AsyncKeyValueStore_init_def)
  next
    case (Some es')
    then have "es' = wal s" by (simp add: wal_def)
    then show ?thesis
      using Some re
      by (simp add: reopen_def initialize_def recover_def on_cache_def AsyncKeyValueStore_init_def)
  qed
  show ?thesis
    using r ro round_trip_when_restart_returns[OF rng r ro later] by blast
qed

section \<open>Capacity eviction\<close>

text \<open>
  Claim C3 (LRU eviction): when the store is at capacity and \<^verbatim>\<open>set\<close> inserts a new key,
  the least recently used key becomes absent for later reads and every other key keeps
  its value. The scenario of the specification: capacity 2, \<^verbatim>\<open>set("a","1")\<close>,
  \<^verbatim>\<open>set("b","2")\<close>, \<^verbatim>\<open>get("a")\<close>, \<^verbatim>\<open>set("c","3")\<close>, after which \<^verbatim>\<open>b\<close> should be absent
  and \<^verbatim>\<open>a\<close>, \<^verbatim>\<open>c\<close> present. In the source the last \<^verbatim>\<open>set\<close> never returns:
  \<^verbatim>\<open>put\<close> awaits \<^verbatim>\<open>remove_from_end\<close>, which holds the lock of the list while it awaits
  \<^verbatim>\<open>remove_node\<close>, and \<^verbatim>\<open>remove_node\<close> waits for that same lock. The same happens
  whenever a new key meets a full, non-empty cache (\<open>store_set_blocks_iff\<close>).
\<close>

theorem C3_eviction_never_returns:
  "run [(0, OpSet ''a'' ''1'' None None), (1, OpSet ''b'' ''2'' None None),
        (2, OpGet ''a'' None), (3, OpSet ''c'' ''3'' None None)]
       (AsyncKeyValueStore_init 2 None 0) = None"
  by code_simp

section \<open>Bounded capacity\<close>

text \<open>
  Claim C2 (bounded capacity), as stated: for every capacity and every sequence of
  operations, \<^verbatim>\<open>size()\<close> is at most the capacity after each operation. With capacity 0
  the first \<^verbatim>\<open>set\<close> finds the list empty, so \<^verbatim>\<open>remove_from_end\<close> returns \<^verbatim>\<open>None\<close> and the
  key is inserted: the size is 1.
\<close>

theorem C2_counterexample:
  "map_option (map_option fst \<circ> store_size None)
     (run [(0, OpSet ''a'' ''1'' None None)] (AsyncKeyValueStore_init 0 None 0)) = Some (Some 1)"
  by code_simp

text \<open>
  Claim C2, amended: for every capacity of at least 1 and every sequence of operations
  run on a new store, after each operation that returns \<^verbatim>\<open>size()\<close> returns the number
  of entries and that number is at most the capacity. The index \<open>i\<close> ranges over the
  prefixes of the sequence.
\<close>

theorem C2_size_bounded:
  assumes "1 \<le> cap"
    and "run ops (AsyncKeyValueStore_init cap file now0) = Some s"
    and "i \<le> length ops"
  shows "\<exists>si. run (take i ops) (AsyncKeyValueStore_init cap file now0) = Some si \<and>
              store_size None si = Some (int (length (cache (store_cache si))), si) \<and>
              int (length (cache (store_cache si))) \<le> cap"
proof -
  let ?init = "AsyncKeyValueStore_init cap file now0"
  have "run (take i ops @ drop i ops) ?init = Some s" using assms(2) by simp
  then obtain si where si: "run (take i ops) ?init = Some si"
    unfolding run_append by (auto split: option.splits)
  have i0: "store_inv ?init" by (rule store_inv_init)
  have c0: "capacity (store_cache ?init) = cap"
    by (simp add: AsyncKeyValueStore_init_def AsyncLRUCache_init_def)
  have l0: "int (length (cache (store_cache ?init))) \<le> capacity (store_cache ?init)"
    using assms(1) by (simp add: AsyncKeyValueStore_init_def AsyncLRUCache_init_def)
  have inv: "store_inv si" and capi: "capacity (store_cache si) = cap"
    using store_inv_run[OF i0 si] c0 by simp_all
  have "int (length (cache (store_cache si))) \<le> capacity (store_cache si)"
    using run_bound[OF i0 _ l0 si] c0 assms(1) by simp
  moreover have "store_size None si = Some (int (length (cache (store_cache si))), si)"
    using inv by (simp add: store_size_free store_inv_def cache_inv_def count_keys_def)
  ultimately show ?thesis using si capi by simp
qed

theorem C2_size_bounded_witness:
  "\<exists>si. run (take 2 [(0, OpSet ''a'' ''1'' None None), (1, OpSet ''b'' ''2'' (Some 5) (Some ''n''))])
            (AsyncKeyValueStore_init 2 None 0) = Some si \<and>
         store_size None si = Some (int (length (cache (store_cache si))), si) \<and>
         int (length (cache (store_cache si))) \<le> 2"
proof -
  have "\<not> Option.is_none
           (run [(0, OpSet ''a'' ''1'' None None), (1, OpSet ''b'' ''2'' (Some 5) (Some ''n''))]
              (AsyncKeyValueStore_init 2 None 0))"
    by code_simp
  then obtain s where
    "run [(0, OpSet ''a'' ''1'' None None), (1, OpSet ''b'' ''2'' (Some 5) (Some ''n''))]
       (AsyncKeyValueStore_init 2 None 0) = Some s"
    by (auto simp: Option.is_none_def)
  from C2_size_bounded[OF _ this, of 2] show ?thesis by simp
qed

section \<open>Reads\<close>

text \<open>
  Claim C6 (get semantics): for every key and optional namespace, on a store between two
  operations. The full key is the key alone when the namespace is absent or empty, and
  the namespace, a colon and the key otherwise. The per-namespace counters are those
  recorded under the namespace itself when it is not empty and under \<^verbatim>\<open>default\<close> when it
  is absent or empty; they start at zero when the label is new. Then
  \<^item> \<^verbatim>\<open>get\<close> of a full key that is absent returns absent and adds one to the global miss
    counter and to the miss counter of the namespace;
  \<^item> \<^verbatim>\<open>get\<close> of a full key that is present but expired removes the entry from the
    dictionary and from the list, returns absent and adds one to both miss counters;
  \<^item> \<^verbatim>\<open>get\<close> of a full key that is present and live with stored value \<open>v\<close> moves the
    entry to the head of the list, sets its \<^verbatim>\<open>access_time\<close> to the clock reading, returns
    \<open>v\<close> and adds one to the global hit counter and to the hit counter of the namespace.

  In each case nothing else of the store changes: the other entries, the log, the other
  global counters and the counters of every other namespace stay as they are.
\<close>

theorem C6_get_semantics:
  assumes "store_inv s"
    and "full_key =
           (case namespace of
              None \<Rightarrow> key
            | Some ns \<Rightarrow> if ns = [] then key else ns @ '':'' @ key)"
    and "label =
           (case namespace of
              None \<Rightarrow> ''default''
            | Some ns \<Rightarrow> if ns = [] then ''default'' else ns)"
    and "counters =
           (case namespace_stats s label of
              None \<Rightarrow> \<lparr>ns_cache_hits = 0, ns_cache_misses = 0, total_keys = 0\<rparr>
            | Some st \<Rightarrow> st)"
  shows
    "(map_of (cache (store_cache s)) full_key = None \<longrightarrow>
        store_get key namespace now s =
          Some (None,
            s\<lparr>stats := (stats s)\<lparr>cache_misses := cache_misses (stats s) + 1\<rparr>,
              namespace_stats := (namespace_stats s)
                (label \<mapsto> counters\<lparr>ns_cache_misses := ns_cache_misses counters + 1\<rparr>)\<rparr>)) \<and>
     (\<forall>node. map_of (cache (store_cache s)) full_key = Some node \<and> is_expired node now \<longrightarrow>
        store_get key namespace now s =
          Some (None,
            s\<lparr>store_cache := (store_cache s)
                 \<lparr>cache := AList.delete full_key (cache (store_cache s)),
                  dll := (dll (store_cache s))
                    \<lparr>chain := remove1 full_key (chain (dll (store_cache s)))\<rparr>\<rparr>,
              stats := (stats s)\<lparr>cache_misses := cache_misses (stats s) + 1\<rparr>,
              namespace_stats := (namespace_stats s)
                (label \<mapsto> counters\<lparr>ns_cache_misses := ns_cache_misses counters + 1\<rparr>)\<rparr>) \<and>
        map_of (AList.delete full_key (cache (store_cache s))) full_key = None \<and>
        full_key \<notin> set (remove1 full_key (chain (dll (store_cache s))))) \<and>
     (\<forall>node v. map_of (cache (store_cache s)) full_key = Some node \<and>
             \<not> is_expired node now \<and> node_value node = Some v \<longrightarrow>
        store_get key namespace now s =
          Some (Some v,
            s\<lparr>store_cache := (store_cache s)
                 \<lparr>cache := AList.update full_key (node\<lparr>access_time := now\<rparr>)
                            (cache (store_cache s)),
                  dll := (dll (store_cache s))
                    \<lparr>chain := full_key # remove1 full_key (chain (dll (store_cache s)))\<rparr>\<rparr>,
              stats := (stats s)\<lparr>cache_hits := cache_hits (stats s) + 1\<rparr>,
              namespace_stats := (namespace_stats s)
                (label \<mapsto> counters\<lparr>ns_cache_hits := ns_cache_hits counters + 1\<rparr>)\<rparr>) \<and>
        map_of (AList.update full_key (node\<lparr>access_time := now\<rparr>) (cache (store_cache s)))
          full_key = Some (node\<lparr>access_time := now\<rparr>))"
proof -
  have fk: "full_key = make_namespaced_key namespace key"
    using assms(2) by (simp add: make_namespaced_key_def split: option.splits)
  have lb: "label = ns_label namespace"
    using assms(3) by (simp add: ns_label_def split: option.splits)
  have cn: "counters = ns_entry s namespace"
    using assms(4) by (simp add: ns_entry_def lb)
  have u: "\<not> store_lock s" and free: "\<not> cache_lock (store_cache s)" "\<not> dll_lock (dll (store_cache s))"
    and d: "distinct (chain (dll (store_cache s)))"
    using assms(1) by (simp_all add: store_inv_def cache_inv_def)
  have absent: ?thesis if "map_of (cache (store_cache s)) full_key = None"
    using that unfolding fk lb cn
    by (simp add: store_get_unlocked[OF u] cache_get_free[OF free])
  have present: ?thesis if n: "map_of (cache (store_cache s)) full_key = Some node" for node
  proof (cases "is_expired node now")
    case True
    with n d show ?thesis unfolding fk lb cn
      by (simp add: store_get_unlocked[OF u] cache_get_free[OF free] map_of_delete_same)
  next
    case False
    with n show ?thesis unfolding fk lb cn
      by (auto simp: store_get_unlocked[OF u] cache_get_free[OF free] update_conv')
  qed
  show ?thesis
    using absent present by (cases "map_of (cache (store_cache s)) full_key") blast+
qed

theorem C6_get_semantics_witness:
  "(\<exists>s'. store_get ''k'' (Some ''app'') 1 example_ns_store = Some (Some ''v'', s') \<and>
         chain (dll (store_cache s')) = [''app:k''] \<and>
         map_option access_time (map_of (cache (store_cache s')) ''app:k'') = Some 1 \<and>
         cache_hits (stats s') = 1 \<and> cache_misses (stats s') = 0 \<and>
         namespace_stats s' ''app'' =
           Some \<lparr>ns_cache_hits = 3, ns_cache_misses = 1, total_keys = 1\<rparr> \<and>
         namespace_stats s' ''default'' = None) \<and>
   (\<exists>s'. store_get ''k'' (Some ''app'') 9 example_ns_store = Some (None, s') \<and>
         cache (store_cache s') = [] \<and> chain (dll (store_cache s')) = [] \<and>
         cache_misses (stats s') = 1 \<and>
         namespace_stats s' ''app'' =
           Some \<lparr>ns_cache_hits = 2, ns_cache_misses = 2, total_keys = 1\<rparr>) \<and>
   (\<exists>s'. store_get ''z'' (Some ''app'') 1 example_ns_store = Some (None, s') \<and>
         store_cache s' = store_cache example_ns_store \<and>
         cache_misses (stats s') = 1 \<and>
         namespace_stats s' ''app'' =
           Some \<lparr>ns_cache_hits = 2, ns_cache_misses = 2, total_keys = 1\<rparr> \<and>
         namespace_stats s' ''default'' = None) \<and>
   (\<exists>s'. store_get ''z'' None 1 example_ns_store = Some (None, s') \<and>
         cache_misses (stats s') = 1 \<and>
         namespace_stats s' ''default'' =
           Some \<lparr>ns_cache_hits = 0, ns_cache_misses = 1, total_keys = 0\<rparr> \<and>
         namespace_stats s' ''app'' =
           Some \<lparr>ns_cache_hits = 2, ns_cache_misses = 1, total_keys = 1\<rparr>)"
proof -
  note t = C6_get_semantics[OF example_ns_store_inv refl refl refl]
  have a: "\<exists>s'. store_get ''k'' (Some ''app'') 1 example_ns_store = Some (Some ''v'', s') \<and>
         chain (dll (store_cache s')) = [''app:k''] \<and>
         map_option access_time (map_of (cache (store_cache s')) ''app:k'') = Some 1 \<and>
         cache_hits (stats s') = 1 \<and> cache_misses (stats s') = 0 \<and>
         namespace_stats s' ''app'' =
           Some \<lparr>ns_cache_hits = 3, ns_cache_misses = 1, total_keys = 1\<rparr> \<and>
         namespace_stats s' ''default'' = None"
    using t[where namespace = "Some ''app''" and key = "''k''" and now = 1]
    by (simp add: example_ns_store_def is_expired_def)
  have b: "\<exists>s'. store_get ''k'' (Some ''app'') 9 example_ns_store = Some (None, s') \<and>
         cache (store_cache s') = [] \<and> chain (dll (store_cache s')) = [] \<and>
         cache_misses (stats s') = 1 \<and>
         namespace_stats s' ''app'' =
           Some \<lparr>ns_cache_hits = 2, ns_cache_misses = 2, total_keys = 1\<rparr>"
    using t[where namespace = "Some ''app''" and key = "''k''" and now = 9]
    by (simp add: example_ns_store_def is_expired_def)
  have c: "\<exists>s'. store_get ''z'' (Some ''app'') 1 example_ns_store = Some (None, s') \<and>
         store_cache s' = store_cache example_ns_store \<and>
         cache_misses (stats s') = 1 \<and>
         namespace_stats s' ''app'' =
           Some \<lparr>ns_cache_hits = 2, ns_cache_misses = 2, total_keys = 1\<rparr> \<and>
         namespace_stats s' ''default'' = None"
    using t[where namespace = "Some ''app''" and key = "''z''" and now = 1]
    by (simp add: example_ns_store_def)
  have d: "\<exists>s'. store_get ''z'' None 1 example_ns_store = Some (None, s') \<and>
         cache_misses (stats s') = 1 \<and>
         namespace_stats s' ''default'' =
           Some \<lparr>ns_cache_hits = 0, ns_cache_misses = 1, total_keys = 0\<rparr> \<and>
         namespace_stats s' ''app'' =
           Some \<lparr>ns_cache_hits = 2, ns_cache_misses = 1, total_keys = 1\<rparr>"
    using t[where namespace = None and key = "''z''" and now = 1]
    by (simp add: example_ns_store_def)
  show ?thesis using a b c d by blast
qed

section \<open>Deletion\<close>



section \<open>Eviction accounting\<close>

text \<open>
  Claim C9 (eviction accounting): whenever \<^verbatim>\<open>set\<close> evicts the tail entry, the
  \<^verbatim>\<open>evictions\<close> counter is incremented by one. The source declares the counter in
  \<^verbatim>\<open>self.stats\<close> and reports it in \<^verbatim>\<open>get_stats\<close>, and no statement assigns to it: every
  sequence of operations that returns leaves it as it was. (A \<^verbatim>\<open>set\<close> that reaches the
  eviction of a node does not return at all, see C3.)
\<close>

theorem C9_evictions_never_incremented:
  assumes "run ops s = Some s'"
  shows "evictions (stats s') = evictions (stats s)"
  using assms
proof (induction ops arbitrary: s)
  case Nil
  then show ?case by simp
next
  case (Cons a ops)
  obtain now opn where a: "a = (now, opn)" by (cases a)
  from Cons.prems a obtain r s1 where
    p: "perform now opn s = Some (r, s1)" and rest: "run ops s1 = Some s'"
    by (auto split: option.splits)
  have u: "\<not> store_lock s"
  proof
    assume "store_lock s"
    then have "perform now opn s = None"
      by (cases opn) (simp_all add: store_set_def store_get_def store_delete_def
            with_store_lock_def Let_def)
    with p show False by simp
  qed
  have "evictions (stats s1) = evictions (stats s)"
  proof (cases opn)
    case (OpSet key val ttl ns)
    with p show ?thesis
      by (auto simp: store_set_unlocked[OF u] split: option.splits sum.splits)
  next
    case (OpGet key ns)
    with p show ?thesis
      by (auto simp: store_get_unlocked[OF u] split: option.splits)
  next
    case (OpDelete key ns)
    with p show ?thesis
      by (auto simp: store_delete_unlocked[OF u] split: option.splits if_splits)
  qed
  with Cons.IH[OF rest] show ?case by simp
qed

theorem C9_evictions_never_incremented_witness:
  "\<exists>s'. run [(0, OpSet ''a'' ''1'' None None), (1, OpSet ''a'' ''2'' None None)]
           (AsyncKeyValueStore_init 1 None 0) = Some s' \<and>
        evictions (stats s') = 0"
proof -
  have "\<not> Option.is_none
           (run [(0, OpSet ''a'' ''1'' None None), (1, OpSet ''a'' ''2'' None None)]
              (AsyncKeyValueStore_init 1 None 0))"
    by code_simp
  then obtain s' where r:
    "run [(0, OpSet ''a'' ''1'' None None), (1, OpSet ''a'' ''2'' None None)]
       (AsyncKeyValueStore_init 1 None 0) = Some s'"
    by (auto simp: Option.is_none_def)
  from C9_evictions_never_incremented[OF r] have "evictions (stats s') = 0"
    by (simp add: AsyncKeyValueStore_init_def)
  with r show ?thesis by blast
qed

section \<open>Expiry\<close>

text \<open>
  Claim C4 (TTL expiry): for every key set with TTL \<open>t\<close>, the boundary case \<open>t = 0\<close>
  included with the meaning of immediate expiry, a \<^verbatim>\<open>get\<close> of the key issued strictly
  more than \<open>t\<close> seconds after the \<^verbatim>\<open>set\<close> returns absent. \<^verbatim>\<open>AsyncNode.__init__\<close> and
  \<^verbatim>\<open>put\<close> compute the expiry with \<^verbatim>\<open>time.time() + ttl if ttl else None\<close>, and the test
  \<^verbatim>\<open>if ttl\<close> is false on 0 as it is on \<^verbatim>\<open>None\<close>: the key set with TTL 0 at instant 0 is
  still returned at instant 100. The neighbouring TTLs behave as the claim says: the key
  set with TTL -1 is absent for a \<^verbatim>\<open>get\<close> at the instant of the \<^verbatim>\<open>set\<close>, and the key set
  with TTL 1 is absent at instant 2. For the TTLs other than 0 that a float can hold
  the claim holds in general (\<open>set_with_ttl_expires\<close>).
\<close>

theorem C4_ttl_zero_never_expires:
  "map_option fst
     (Option.bind (run [(0, OpSet ''k'' ''v'' (Some 0) None)] (AsyncKeyValueStore_init 10 None 0))
        (perform 100 (OpGet ''k'' None))) = Some (Inr (Found (Some ''v''))) \<and>
   map_option fst
     (Option.bind (run [(0, OpSet ''k'' ''v'' (Some (- 1)) None)] (AsyncKeyValueStore_init 10 None 0))
        (perform 0 (OpGet ''k'' None))) = Some (Inr (Found None)) \<and>
   map_option fst
     (Option.bind (run [(0, OpSet ''k'' ''v'' (Some 1) None)] (AsyncKeyValueStore_init 10 None 0))
        (perform 2 (OpGet ''k'' None))) = Some (Inr (Found None))"
  by code_simp

section \<open>Namespaces\<close>

text \<open>
  Claim C8 (namespace isolation), as stated, holds for every pair of different
  namespaces. The absent namespace and the empty string are different arguments, and
  \<^verbatim>\<open>_make_namespaced_key\<close> maps both to the bare key (\<^verbatim>\<open>if namespace:\<close> is false on
  both): a \<^verbatim>\<open>set\<close> with the namespace \<^verbatim>\<open>""\<close> changes what \<^verbatim>\<open>get\<close> without a namespace
  returns.
\<close>

theorem C8_counterexample:
  "map_option fst
     (Option.bind (run [(0, OpSet ''k'' ''v1'' None None)] (AsyncKeyValueStore_init 10 None 0))
        (perform 2 (OpGet ''k'' None))) = Some (Inr (Found (Some ''v1''))) \<and>
   map_option fst
     (Option.bind (run [(0, OpSet ''k'' ''v1'' None None), (1, OpSet ''k'' ''v2'' None (Some ''''))]
                     (AsyncKeyValueStore_init 10 None 0))
        (perform 2 (OpGet ''k'' None))) = Some (Inr (Found (Some ''v2'')))"
  by code_simp

text \<open>
  Claim C8, amended: for every key and namespaces \<open>ns1\<close>, \<open>ns2\<close> that differ, the empty
  string counting as the absent namespace, the two full keys differ, and a
  \<^verbatim>\<open>set(k, v, ns2)\<close> that returns on a store between two operations leaves the result of
  \<^verbatim>\<open>get(k, ns1)\<close> at every clock reading as it was. The same holds of a \<^verbatim>\<open>set\<close> that
  raises: \<open>r\<close> below is either outcome.
\<close>

theorem C8_namespace_isolation:
  assumes "store_inv s" and "ns1 \<noteq> ns2"
    and "ns1 \<notin> {None, Some ''''} \<or> ns2 \<notin> {None, Some ''''}"
    and "store_set key val ttl ns2 t s = Some (r, s')"
  shows "make_namespaced_key ns1 key \<noteq> make_namespaced_key ns2 key \<and>
         (\<exists>v s1 s2. store_get key ns1 now s = Some (v, s1) \<and>
                    store_get key ns1 now s' = Some (v, s2))"
proof -
  let ?k1 = "make_namespaced_key ns1 key" and ?k2 = "make_namespaced_key ns2 key"
  have ci: "cache_inv (store_cache s)" and u: "\<not> store_lock s"
    using assms(1) by (simp_all add: store_inv_def)
  have ne: "?k1 \<noteq> ?k2" by (rule full_keys_differ[OF assms(2,3)])
  have put: "cache_put ?k2 (Some val) (map_option PyInt ttl) t (store_cache s) =
               Some (r, store_cache s')"
    and u': "\<not> store_lock s'"
    using store_set_Some[OF u assms(4)] by simp_all
  have i': "store_inv s'"
    using cache_inv_put[OF ci put] u' by (simp add: store_inv_def)
  have "entry_of (store_cache s') ?k1 = entry_of (store_cache s) ?k1"
    by (rule cache_put_other[OF ci put ne])
  then have "visible (store_cache s') ?k1 now = visible (store_cache s) ?k1 now"
    by (rule visible_cong)
  with store_get_visible[OF assms(1), of key ns1 now] store_get_visible[OF i', of key ns1 now] ne
  show ?thesis by auto
qed

theorem C8_namespace_isolation_witness:
  "\<exists>s' s1 s2. store_set ''k'' ''w'' None (Some ''app2'') 1 example_store = Some (Inr (), s') \<and>
              store_get ''k'' None 2 example_store = Some (Some ''v'', s1) \<and>
              store_get ''k'' None 2 s' = Some (Some ''v'', s2)"
proof -
  have "map_option fst (store_set ''k'' ''w'' None (Some ''app2'') 1 example_store) =
          Some (Inr ())"
    by code_simp
  then obtain s' where
    st: "store_set ''k'' ''w'' None (Some ''app2'') 1 example_store = Some (Inr (), s')"
    by auto
  have v: "map_option fst (store_get ''k'' None 2 example_store) = Some (Some ''v'')"
    by code_simp
  from C8_namespace_isolation[where ?ns1.0 = None and now = 2, OF example_store_inv _ _ st] v st
  show ?thesis by auto
qed

text \<open>
  Claim C10 (implicit), as stated: \<^verbatim>\<open>set\<close>, \<^verbatim>\<open>get\<close> and \<^verbatim>\<open>delete\<close> with the namespace
  \<^verbatim>\<open>""\<close> behave identically to the call without a namespace. \<^verbatim>\<open>set\<close> and \<^verbatim>\<open>delete\<close>
  store \<^verbatim>\<open>await self.size(namespace)\<close> as the \<^verbatim>\<open>total_keys\<close> of the label, and \<^verbatim>\<open>size\<close>
  tests \<^verbatim>\<open>namespace is None\<close>: with \<^verbatim>\<open>""\<close> it counts the full keys that begin with a
  colon. After one \<^verbatim>\<open>set\<close> on a new store, \<^verbatim>\<open>total_keys\<close> under \<^verbatim>\<open>default\<close> is 0 with the
  namespace \<^verbatim>\<open>""\<close> and 1 without a namespace.
\<close>

theorem C10_counterexample:
  "map_option default_total_keys
     (run [(0, OpSet ''k'' ''v'' None (Some ''''))] (AsyncKeyValueStore_init 10 None 0)) =
     Some (Some 0) \<and>
   map_option default_total_keys
     (run [(0, OpSet ''k'' ''v'' None None)] (AsyncKeyValueStore_init 10 None 0)) =
     Some (Some 1)"
  by code_simp

text \<open>
  Claim C10, amended: for every key, value and TTL, with the namespace \<^verbatim>\<open>""\<close> the full
  key is the bare key, as without a namespace, and the statistics label is
  \<^verbatim>\<open>default\<close>; \<^verbatim>\<open>get\<close> is the same function of the store as without a namespace;
  \<^verbatim>\<open>set\<close> and \<^verbatim>\<open>delete\<close> return (or fail to return) alike, with the same result, the
  same cache and the same global counters; a log record with the namespace \<^verbatim>\<open>""\<close>
  replays as the record without a namespace does; and \<^verbatim>\<open>list_namespaces\<close> never
  returns the empty string. The namespace field of the record written and the
  \<^verbatim>\<open>total_keys\<close> stored under \<^verbatim>\<open>default\<close> are left out.
\<close>

theorem C10_empty_namespace:
  "make_namespaced_key (Some '''') key = key \<and>
   make_namespaced_key None key = key \<and>
   ns_label (Some '''') = ''default'' \<and>
   ns_label None = ''default'' \<and>
   store_get key (Some '''') now s = store_get key None now s \<and>
   map_option (\<lambda>(r, s'). (r, store_cache s', stats s'))
       (store_set key val ttl (Some '''') now s) =
     map_option (\<lambda>(r, s'). (r, store_cache s', stats s'))
       (store_set key val ttl None now s) \<and>
   map_option (\<lambda>(r, s'). (r, store_cache s', stats s'))
       (store_delete key (Some '''') now s) =
     map_option (\<lambda>(r, s'). (r, store_cache s', stats s'))
       (store_delete key None now s) \<and>
   recover_entry now (entry\<lparr>entry_namespace := Some ''''\<rparr>) c =
     recover_entry now (entry\<lparr>entry_namespace := None\<rparr>) c \<and>
   (\<forall>nss s'. list_namespaces s = Some (nss, s') \<longrightarrow> '''' \<notin> set nss)"
proof -
  have k: "make_namespaced_key (Some '''') key = key" "make_namespaced_key None key = key"
    by (simp_all add: make_namespaced_key_def)
  have l: "ns_label (Some '''') = ''default''" "ns_label None = ''default''"
    by (simp_all add: ns_label_def)
  have g: "store_get key (Some '''') now s = store_get key None now s"
  proof -
    have ini: "init_namespace_stats (Some []) = init_namespace_stats None"
      by (rule ext) (simp add: init_namespace_stats_def l)
    have lbl: "ns_label (Some []) = ns_label None" by (simp add: l)
    show ?thesis unfolding store_get_def k ini lbl ..
  qed
  have st: "map_option (\<lambda>(r, s'). (r, store_cache s', stats s'))
       (store_set key val ttl (Some '''') now s) =
     map_option (\<lambda>(r, s'). (r, store_cache s', stats s'))
       (store_set key val ttl None now s)"
  proof (cases "store_lock s")
    case True
    then show ?thesis by (simp add: store_locked_blocks)
  next
    case False
    show ?thesis
      by (cases "cache_put key (Some val) (map_option PyInt ttl) now (store_cache s)")
         (auto simp: store_set_unlocked[OF False] k split: sum.splits)
  qed
  have dl: "map_option (\<lambda>(r, s'). (r, store_cache s', stats s'))
       (store_delete key (Some '''') now s) =
     map_option (\<lambda>(r, s'). (r, store_cache s', stats s'))
       (store_delete key None now s)"
  proof (cases "store_lock s")
    case True
    then show ?thesis by (simp add: store_locked_blocks)
  next
    case False
    show ?thesis
      by (cases "cache_delete key (store_cache s)")
         (auto simp: store_delete_unlocked[OF False] k)
  qed
  have rc: "recover_entry now (entry\<lparr>entry_namespace := Some ''''\<rparr>) c =
     recover_entry now (entry\<lparr>entry_namespace := None\<rparr>) c"
  proof -
    have mk: "make_namespaced_key (Some []) = make_namespaced_key None"
      by (rule ext) (simp add: make_namespaced_key_def)
    show ?thesis by (simp add: recover_entry_def mk Let_def split: option.splits sum.splits)
  qed
  have ln: "\<forall>nss s'. list_namespaces s = Some (nss, s') \<longrightarrow> '''' \<notin> set nss"
    using list_namespaces_nonempty by blast
  show ?thesis using k l g st dl rc ln by blast
qed

theorem C10_empty_namespace_witness:
  "\<exists>s nss s'. run [(0, OpSet ''c'' ''1'' None (Some '''')), (1, OpSet '':d'' ''2'' None None),
                   (2, OpSet ''u'' ''3'' None (Some ''app''))]
                 (AsyncKeyValueStore_init 10 None 0) = Some s \<and>
              list_namespaces s = Some (nss, s') \<and> '''' \<notin> set nss \<and>
              store_get ''c'' (Some '''') 3 s = store_get ''c'' None 3 s"
proof -
  have "\<not> Option.is_none
           (run [(0, OpSet ''c'' ''1'' None (Some '''')), (1, OpSet '':d'' ''2'' None None),
                 (2, OpSet ''u'' ''3'' None (Some ''app''))]
              (AsyncKeyValueStore_init 10 None 0))"
    by code_simp
  then obtain s where r:
    "run [(0, OpSet ''c'' ''1'' None (Some '''')), (1, OpSet '':d'' ''2'' None None),
          (2, OpSet ''u'' ''3'' None (Some ''app''))]
       (AsyncKeyValueStore_init 10 None 0) = Some s"
    by (auto simp: Option.is_none_def)
  have "\<not> cache_lock (store_cache s)"
    using store_inv_run[OF store_inv_init r] by (simp add: store_inv_def cache_inv_def)
  then obtain nss s' where ln: "list_namespaces s = Some (nss, s')"
    by (simp add: list_namespaces_def on_cache_def cache_get_all_keys_free)
  from C10_empty_namespace[of "''c''" 3 s] ln r show ?thesis by blast
qed

section \<open>Compaction\<close>

text \<open>
  Claim C5 (compaction postcondition): immediately after \<^verbatim>\<open>compact()\<close> the log holds
  exactly one \<^verbatim>\<open>SET\<close> record for each live, non-expired entry of the cache and no \<^verbatim>\<open>DEL\<close>
  record. The second loop of \<^verbatim>\<open>compact_log\<close> computes
  \<^verbatim>\<open>ttl = max(0, int(expires_at - time.time()))\<close> and takes \<^verbatim>\<open>continue\<close> when
  \<^verbatim>\<open>ttl <= 0\<close>, under the comment \<^verbatim>\<open>Skip expired items\<close>; \<^verbatim>\<open>int\<close> rounds towards zero, so
  the test is also true of an entry that has less than a second left and is not expired.
  A key set with TTL 1 at instant 0 and compacted at instant 0.5 is in the cache after
  the compaction and is returned by \<^verbatim>\<open>get\<close> at 0.5, and the compacted log is empty.
  What \<^verbatim>\<open>compact()\<close> writes in general is stated in \<open>compact_log_effect\<close> and
  \<open>compaction_reparses_keys\<close>. The example of the claim, five keys set at capacity 3,
  does not reach the compaction: the fourth \<^verbatim>\<open>set\<close> does not return
  (\<open>compaction_scenario_blocks\<close>, the defect of C3).
\<close>

theorem C5_live_entry_without_record:
  "map_option (\<lambda>(r, s'). (r, log_file s', map fst (cache (store_cache s'))))
     (Option.bind (run [(0, OpSet ''k'' ''v'' (Some 1) None)] (AsyncKeyValueStore_init 3 None 0))
        (compact_log (1/2))) = Some ((), Some [], [''k'']) \<and>
   map_option fst
     (Option.bind
        (map_option snd
           (Option.bind (run [(0, OpSet ''k'' ''v'' (Some 1) None)] (AsyncKeyValueStore_init 3 None 0))
              (compact_log (1/2))))
        (perform (1/2) (OpGet ''k'' None))) = Some (Inr (Found (Some ''v'')))"
  by code_simp

section \<open>Recovery\<close>

text \<open>
  Claim C1 (round-trip durability): for every sequence of operations run on a new store,
  the restart on the log that the sequence wrote yields a store in which every key that
  was live before the shutdown is returned by \<^verbatim>\<open>get\<close> with its last-set value. With
  capacity 1: \<^verbatim>\<open>set("a","1")\<close> at instant 0, \<^verbatim>\<open>set("a","2",ttl=1)\<close> at 1, \<^verbatim>\<open>get("a")\<close> at
  3, which finds the entry expired and drops it, and \<^verbatim>\<open>set("b","3")\<close> at 4, which finds
  the cache empty. Before the shutdown \<^verbatim>\<open>b\<close> is live: \<^verbatim>\<open>get("b")\<close> at 6 returns its value.
  The restart at instant 5 replays the four operations' three records: it puts \<^verbatim>\<open>a\<close>
  from the first, skips the second, whose TTL has run out, and reaches the record of
  \<^verbatim>\<open>b\<close> with the cache full. \<^verbatim>\<open>put\<close> awaits \<^verbatim>\<open>remove_from_end\<close>, which waits for the lock
  it holds (the defect of C3), and \<^verbatim>\<open>initialize\<close> never returns: the restart yields no
  store. Whenever the run and the restart both return, the round trip holds
  (\<open>round_trip_when_restart_returns\<close>), and they do return when the sequence writes
  to at most \<open>capacity\<close> distinct full keys (\<open>round_trip_without_eviction\<close>); both
  for times to live that a float can hold.
\<close>

theorem C1_recovery_never_returns:
  "map_option fst
     (Option.bind
        (run [(0, OpSet ''a'' ''1'' None None), (1, OpSet ''a'' ''2'' (Some 1) None),
              (3, OpGet ''a'' None), (4, OpSet ''b'' ''3'' None None)]
           (AsyncKeyValueStore_init 1 None 0))
        (perform 6 (OpGet ''b'' None))) = Some (Inr (Found (Some ''3''))) \<and>
   map_option (map action \<circ> wal)
        (run [(0, OpSet ''a'' ''1'' None None), (1, OpSet ''a'' ''2'' (Some 1) None),
              (3, OpGet ''a'' None), (4, OpSet ''b'' ''3'' None None)]
           (AsyncKeyValueStore_init 1 None 0)) = Some [''SET'', ''SET'', ''SET''] \<and>
   Option.is_none
     (Option.bind
        (run [(0, OpSet ''a'' ''1'' None None), (1, OpSet ''a'' ''2'' (Some 1) None),
              (3, OpGet ''a'' None), (4, OpSet ''b'' ''3'' None None)]
           (AsyncKeyValueStore_init 1 None 0))
        (reopen 1 5))"
  by code_simp

end
